theory Spec2Isabelle
  imports Main "HOL-Library.Sublist"
begin

section \<open>Python text\<close>

text \<open>
  A Python \<^verbatim>\<open>str\<close> is a sequence of Unicode code points, so a text is a list of
  natural numbers. \<open>py\<close> turns an ASCII literal into such a text.
\<close>

type_synonym pystr = "nat list"

definition py :: "string \<Rightarrow> pystr" where
  "py s = map of_char s"

text \<open>
  A float is kept as the decimal numeral it was converted from: sign, the digits read as
  one natural number, and the number of digits after the point. \<open>Decimal True 32 1\<close> is
  the float that \<^verbatim>\<open>float("-3.2")\<close> returns. Rounding to binary64 is not modelled; what
  Python computes from the float is a function of these three components.
\<close>

datatype pyfloat = Decimal (negative: bool) (mantissa: nat) (scale: nat)

text \<open>
  What the interpreter supplies and the repository does not contain: the Unicode tables
  beyond ASCII behind \<^verbatim>\<open>str.isspace\<close>, \<^verbatim>\<open>\s\<close>, \<^verbatim>\<open>\d\<close>, \<^verbatim>\<open>\w\<close> and \<^verbatim>\<open>float\<close>, and the
  \<^verbatim>\<open>repr\<close> of a float that an f-string prints. They are a parameter of every function
  that depends on them. The ASCII part of each class is written out in the definitions
  below.
\<close>

record runtime =
  uni_space :: "nat \<Rightarrow> bool"
  uni_decimal :: "nat \<Rightarrow> nat option"
  uni_alnum :: "nat \<Rightarrow> bool"
  repr_float :: "pyfloat \<Rightarrow> pystr"

definition is_space :: "runtime \<Rightarrow> nat \<Rightarrow> bool" where
  "is_space U c =
     (if c < 128 then (9 \<le> c \<and> c \<le> 13) \<or> (28 \<le> c \<and> c \<le> 32) else uni_space U c)"

definition decimal_value :: "runtime \<Rightarrow> nat \<Rightarrow> nat option" where
  "decimal_value U c =
     (if c < 128 then (if 48 \<le> c \<and> c \<le> 57 then Some (c - 48) else None)
      else uni_decimal U c)"

definition is_decimal :: "runtime \<Rightarrow> nat \<Rightarrow> bool" where
  "is_decimal U c = (decimal_value U c \<noteq> None)"

definition is_word :: "runtime \<Rightarrow> nat \<Rightarrow> bool" where
  "is_word U c =
     (if c < 128
      then (48 \<le> c \<and> c \<le> 57) \<or> (65 \<le> c \<and> c \<le> 90) \<or> c = 95 \<or> (97 \<le> c \<and> c \<le> 122)
      else uni_alnum U c)"

subsection \<open>\<^verbatim>\<open>in\<close>, \<^verbatim>\<open>split\<close>, \<^verbatim>\<open>strip\<close>, \<^verbatim>\<open>join\<close>\<close>

text \<open>\<^verbatim>\<open>sub in s\<close>: \<open>sub\<close> occurs in \<open>s\<close> at some position.\<close>

fun py_in :: "pystr \<Rightarrow> pystr \<Rightarrow> bool" where
  "py_in sub [] = (sub = [])"
| "py_in sub (c # cs) = (prefix sub (c # cs) \<or> py_in sub cs)"

text \<open>
  \<^verbatim>\<open>s.split(sep, 1)\<close> for a non-empty \<open>sep\<close>: the text before and the text after the
  first occurrence of \<open>sep\<close>, or \<open>s\<close> alone when there is none.
\<close>

fun py_split1 :: "pystr \<Rightarrow> pystr \<Rightarrow> pystr list" where
  "py_split1 sep [] = [[]]"
| "py_split1 sep (c # cs) =
     (if prefix sep (c # cs) then [[], drop (length sep) (c # cs)]
      else (case py_split1 sep cs of [] \<Rightarrow> [] | a # rest \<Rightarrow> (c # a) # rest))"

text \<open>\<^verbatim>\<open>s.strip()\<close>: leading and trailing whitespace removed.\<close>

definition py_strip :: "runtime \<Rightarrow> pystr \<Rightarrow> pystr" where
  "py_strip U s = rev (dropWhile (is_space U) (rev (dropWhile (is_space U) s)))"

text \<open>\<^verbatim>\<open>s.split()\<close>: the maximal runs of non-whitespace characters, in order.\<close>

function py_split_ws :: "runtime \<Rightarrow> pystr \<Rightarrow> pystr list" where
  "py_split_ws U [] = []"
| "py_split_ws U (c # cs) =
     (if is_space U c then py_split_ws U cs
      else (c # takeWhile (\<lambda>x. \<not> is_space U x) cs)
             # py_split_ws U (dropWhile (\<lambda>x. \<not> is_space U x) cs))"
  by pat_completeness auto
termination
  by (relation "measure (\<lambda>(U, s). length s)")
     (auto simp: le_imp_less_Suc length_dropWhile_le)

text \<open>\<^verbatim>\<open>sep.join(xs)\<close>.\<close>

fun py_join :: "pystr \<Rightarrow> pystr list \<Rightarrow> pystr" where
  "py_join sep [] = []"
| "py_join sep [x] = x"
| "py_join sep (x # y # ys) = x @ sep @ py_join sep (y # ys)"

section \<open>The regular expression of the parser\<close>

text \<open>
  The pattern of the source is
  \<^verbatim>\<open>\s*([+-]?\d+(?:\.\d+)?)\s*([\w<Omega>%]+)\<close> (with the Greek capital omega, U+03A9, in
  the last class). The fragment of \<^verbatim>\<open>re\<close> it uses: character classes, greedy \<^verbatim>\<open>*\<close> and
  \<^verbatim>\<open>+\<close> over a class, greedy \<^verbatim>\<open>?\<close>, concatenation and numbered groups.
\<close>

datatype atom = Cat_space | Cat_digit | Cat_word | Lit nat

fun atom_matches :: "runtime \<Rightarrow> atom \<Rightarrow> nat \<Rightarrow> bool" where
  "atom_matches U Cat_space c = is_space U c"
| "atom_matches U Cat_digit c = is_decimal U c"
| "atom_matches U Cat_word c = is_word U c"
| "atom_matches U (Lit l) c = (c = l)"

fun in_class :: "runtime \<Rightarrow> atom list \<Rightarrow> nat \<Rightarrow> bool" where
  "in_class U [] c = False"
| "in_class U (a # as) c = (atom_matches U a c \<or> in_class U as c)"

datatype regex =
    One "atom list"
  | Many0 "atom list"
  | Many1 "atom list"
  | Maybe regex
  | Then regex regex
  | Capture nat regex

text \<open>
  The texts left after a greedy run over a class, in the order the backtracking engine
  tries them: the longest run first, the empty run last.
\<close>

fun greedy_rests :: "(nat \<Rightarrow> bool) \<Rightarrow> pystr \<Rightarrow> pystr list" where
  "greedy_rests P [] = [[]]"
| "greedy_rests P (c # cs) = (if P c then greedy_rests P cs @ [c # cs] else [c # cs])"

text \<open>
  All the ways a pattern matches at the start of a text, in the engine's order of
  preference: each is the groups captured and the text left after the match. The first
  is the match the engine reports.
\<close>

type_synonym captures = "(nat \<times> pystr) list"

fun rmatch :: "runtime \<Rightarrow> regex \<Rightarrow> pystr \<Rightarrow> (captures \<times> pystr) list" where
  "rmatch U (One cl) s =
     (case s of [] \<Rightarrow> [] | c # cs \<Rightarrow> if in_class U cl c then [([], cs)] else [])"
| "rmatch U (Many0 cl) s = map (Pair []) (greedy_rests (in_class U cl) s)"
| "rmatch U (Many1 cl) s = map (Pair []) (butlast (greedy_rests (in_class U cl) s))"
| "rmatch U (Maybe r) s = rmatch U r s @ [([], s)]"
| "rmatch U (Then r1 r2) s =
     concat (map (\<lambda>(g1, s1). map (\<lambda>(g2, s2). (g1 @ g2, s2)) (rmatch U r2 s1))
                 (rmatch U r1 s))"
| "rmatch U (Capture n r) s =
     map (\<lambda>(g, s'). (g @ [(n, take (length s - length s') s)], s')) (rmatch U r s)"

text \<open>
  \<^verbatim>\<open>pattern.search(s)\<close>: the first match at the leftmost position that has one. The
  result is the captures and the text after the end of the match.
\<close>

fun re_search :: "runtime \<Rightarrow> regex \<Rightarrow> pystr \<Rightarrow> (captures \<times> pystr) option" where
  "re_search U r [] = (case rmatch U r [] of [] \<Rightarrow> None | m # _ \<Rightarrow> Some m)"
| "re_search U r (c # cs) =
     (case rmatch U r (c # cs) of [] \<Rightarrow> re_search U r cs | m # _ \<Rightarrow> Some m)"

text \<open>\<^verbatim>\<open>m.group(n)\<close>: \<open>None\<close> for a group that took no part in the match.\<close>

definition m_group :: "captures \<times> pystr \<Rightarrow> nat \<Rightarrow> pystr option" where
  "m_group m n = map_of (fst m) n"

definition main_regex :: regex where
  "main_regex =
     Then (Many0 [Cat_space])
    (Then (Capture 1
            (Then (Maybe (One [Lit 43, Lit 45]))
            (Then (Many1 [Cat_digit])
                  (Maybe (Then (One [Lit 46]) (Many1 [Cat_digit]))))))
    (Then (Many0 [Cat_space])
          (Capture 2 (Many1 [Cat_word, Lit 937, Lit 37]))))"

section \<open>Exceptions and \<^verbatim>\<open>float\<close>\<close>

text \<open>
  The exceptions that the modelled code can raise. \<open>SerialException\<close> is what the serial
  port raises, with its message. A computation that can raise returns \<open>exn + 'a\<close>.
\<close>

datatype exn = ValueError | TypeError | UnboundLocalError | SerialException pystr

definition and_then :: "exn + 'a \<Rightarrow> ('a \<Rightarrow> exn + 'b) \<Rightarrow> exn + 'b" where
  "and_then x f = (case x of Inl e \<Rightarrow> Inl e | Inr v \<Rightarrow> f v)"

fun digits_value :: "runtime \<Rightarrow> pystr \<Rightarrow> nat \<Rightarrow> nat option" where
  "digits_value U [] acc = Some acc"
| "digits_value U (c # cs) acc =
     (case decimal_value U c of None \<Rightarrow> None | Some d \<Rightarrow> digits_value U cs (10 * acc + d))"

text \<open>
  \<^verbatim>\<open>float(s)\<close> on a numeral of the shape sign, digits, and optionally a point and digits:
  the only shape the first group of the pattern can have (lemma \<open>main_regex_number\<close>
  below). On any other text the model answers \<open>ValueError\<close>; Python accepts more
  (exponents, \<^verbatim>\<open>inf\<close>, surrounding blanks), and no such text reaches this function from
  the parser.
\<close>

definition unsigned_float :: "runtime \<Rightarrow> bool \<Rightarrow> pystr \<Rightarrow> exn + pyfloat" where
  "unsigned_float U neg body =
     (let ip = takeWhile (is_decimal U) body;
          rest = dropWhile (is_decimal U) body
      in if ip = [] then Inl ValueError
         else case rest of
             [] \<Rightarrow> (case digits_value U ip 0 of
                      None \<Rightarrow> Inl ValueError
                    | Some n \<Rightarrow> Inr (Decimal neg n 0))
           | c # fp \<Rightarrow>
               if c = 46 \<and> fp \<noteq> [] then
                 (case digits_value U (ip @ fp) 0 of
                    None \<Rightarrow> Inl ValueError
                  | Some n \<Rightarrow> Inr (Decimal neg n (length fp)))
               else Inl ValueError)"

definition py_float :: "runtime \<Rightarrow> pystr \<Rightarrow> exn + pyfloat" where
  "py_float U s =
     (case s of
        [] \<Rightarrow> Inl ValueError
      | c # cs \<Rightarrow>
          if c = 43 then unsigned_float U False cs
          else if c = 45 then unsigned_float U True cs
          else unsigned_float U False s)"

text \<open>
  The block \<^verbatim>\<open>try: v = float(g) except ValueError: v = None\<close>, which the source writes
  once for the main value and once for the auxiliary value. \<^verbatim>\<open>float(None)\<close> raises
  \<open>TypeError\<close>, which the block does not catch.
\<close>

definition try_float :: "runtime \<Rightarrow> pystr option \<Rightarrow> exn + pyfloat option" where
  "try_float U g =
     (case g of
        None \<Rightarrow> Inl TypeError
      | Some s \<Rightarrow>
          (case py_float U s of
             Inl ValueError \<Rightarrow> Inr None
           | Inl e \<Rightarrow> Inl e
           | Inr v \<Rightarrow> Inr (Some v)))"

section \<open>The line parser\<close>

text \<open>
  The dictionary that \<^verbatim>\<open>parse_all_measurements\<close> returns has at most seven keys. A field
  is \<open>None\<close> when its key is absent; a key whose value may be Python's \<^verbatim>\<open>None\<close> has an
  optional value, so \<open>Some None\<close> is a key that is present with the value \<^verbatim>\<open>None\<close>.
\<close>

record parsed =
  flags :: "pystr list option"
  main_value :: "pyfloat option option"
  main_unit :: "pystr option option"
  aux_value :: "pyfloat option option"
  aux_unit :: "pystr option option"
  low_battery :: "bool option"
  raw :: "pystr option"

definition empty_dict :: parsed where
  "empty_dict = \<lparr>flags = None, main_value = None, main_unit = None, aux_value = None,
                  aux_unit = None, low_battery = None, raw = None\<rparr>"

text \<open>
  Unpacking \<^verbatim>\<open>a, b = xs\<close> raises \<open>ValueError\<close> unless \<open>xs\<close> has two elements.
\<close>

definition parse_all_measurements :: "runtime \<Rightarrow> pystr \<Rightarrow> exn + parsed" where
  "parse_all_measurements U message =
     (let parsed = empty_dict in
      if py_in (py ''MAIN:'') message then
        (case py_split1 (py ''MAIN:'') message of
           [pre_main, post_main] \<Rightarrow>
             (let flags_list = py_split_ws U (py_strip U pre_main);
                  parsed = parsed\<lparr>flags := Some flags_list\<rparr>;
                  m_main = re_search U main_regex post_main
              in and_then
                   (case m_main of
                      Some m \<Rightarrow>
                        and_then (try_float U (m_group m 1))
                          (\<lambda>v. Inr (parsed\<lparr>main_value := Some v,
                                            main_unit := Some (m_group m 2)\<rparr>))
                    | None \<Rightarrow> Inr (parsed\<lparr>main_value := Some None, main_unit := Some None\<rparr>))
                (\<lambda>parsed. and_then
                   (if py_in (py ''AUX:'') post_main then
                      (case py_split1 (py ''AUX:'') post_main of
                         [_, aux_part] \<Rightarrow>
                           (case re_search U main_regex aux_part of
                              Some m \<Rightarrow>
                                and_then (try_float U (m_group m 1))
                                  (\<lambda>v. Inr (parsed\<lparr>aux_value := Some v,
                                                    aux_unit := Some (m_group m 2)\<rparr>))
                            | None \<Rightarrow>
                                Inr (parsed\<lparr>aux_value := Some None, aux_unit := Some None\<rparr>))
                       | _ \<Rightarrow> Inl ValueError)
                    else Inr (parsed\<lparr>aux_value := Some None, aux_unit := Some None\<rparr>))
                (\<lambda>parsed.
                   Inr (parsed\<lparr>low_battery := Some (py_in (py ''LOW BAT'') message)\<rparr>))))
         | _ \<Rightarrow> Inl ValueError)
      else Inr (parsed\<lparr>raw := Some message\<rparr>))"

text \<open>
  The claim about the auxiliary reading speaks of "the same numeric/unit extraction"; the
  source writes it out twice. This is that extraction, following the specification's
  words: search the text for the pattern; the value is the number converted (missing
  when the conversion fails), the unit is the second group; both are missing when the
  pattern is not found.
\<close>

definition extraction :: "runtime \<Rightarrow> pystr \<Rightarrow> pyfloat option \<times> pystr option" where
  "extraction U text =
     (case re_search U main_regex text of
        None \<Rightarrow> (None, None)
      | Some m \<Rightarrow>
          (case try_float U (m_group m 1) of Inl e \<Rightarrow> None | Inr v \<Rightarrow> v, m_group m 2))"

text \<open>
  The text that remains after the end of the main match (\<^verbatim>\<open>post_main[m.end():]\<close>), all
  of the text when the pattern is not found: what the specification calls "the remaining
  text (after the main match)". The source never computes it.
\<close>

definition remaining_after_main :: "runtime \<Rightarrow> pystr \<Rightarrow> pystr" where
  "remaining_after_main U post_main =
     (case re_search U main_regex post_main of None \<Rightarrow> post_main | Some m \<Rightarrow> snd m)"

text \<open>The digits \<^verbatim>\<open>0\<close> to \<^verbatim>\<open>9\<close>.\<close>

definition ascii_digit :: "nat \<Rightarrow> bool" where
  "ascii_digit d = (48 \<le> d \<and> d \<le> 57)"

section \<open>A runtime for closed instances\<close>

text \<open>
  A runtime that knows no character beyond ASCII and prints a float as its plain decimal
  numeral with at least one digit after the point, which is what CPython prints for a
  reading of at most fifteen significant digits whose magnitude is zero or lies between
  \<open>0.0001\<close> and \<open>10\<^sup>1\<^sup>6\<close>.
\<close>

function nat_digits :: "nat \<Rightarrow> pystr" where
  "nat_digits n = (if n < 10 then [48 + n] else nat_digits (n div 10) @ [48 + n mod 10])"
  by pat_completeness auto
termination
  by (relation "measure id") auto

definition plain_repr :: "pyfloat \<Rightarrow> pystr" where
  "plain_repr f =
     (let ip = nat_digits (mantissa f div 10 ^ scale f);
          fp = nat_digits (mantissa f mod 10 ^ scale f);
          padded = replicate (scale f - length fp) 48 @ fp;
          frac = rev (dropWhile (\<lambda>c. c = 48) (rev padded))
      in (if negative f then [45] else []) @ ip @ [46] @ (if frac = [] then [48] else frac))"

definition plain_runtime :: runtime where
  "plain_runtime =
     \<lparr>uni_space = (\<lambda>c. False), uni_decimal = (\<lambda>c. None), uni_alnum = (\<lambda>c. False),
      repr_float = plain_repr\<rparr>"

section \<open>The reader thread\<close>

text \<open>
  A file object returned by \<^verbatim>\<open>open(path, "a")\<close>: its path, whether it is open, and the
  text written to it that has not been flushed to the file yet.
\<close>

record file_handle =
  h_path :: pystr
  h_open :: bool
  h_buffer :: pystr

text \<open>
  The local variables of \<^verbatim>\<open>run\<close> that are assigned only in the branch for a structured
  reading and read later when the CSV line is built. They are locals of the method, not
  of the loop body, so they keep their values from one iteration to the next.
\<close>

record row_locals =
  flags_str :: pystr
  main_val :: "pyfloat option"
  main_unit_local :: pystr
  aux_val :: "pyfloat option"
  aux_unit_local :: pystr
  battery_str :: pystr

text \<open>
  The state of a \<^verbatim>\<open>SerialReaderThread\<close>: the fields of the object; the row locals of
  \<^verbatim>\<open>run\<close> (\<open>None\<close> while the names are unbound); and what the thread acts on: the file
  objects it has opened (a file object is its index in \<open>handles\<close>), the contents of the
  files by path, the texts passed to \<^verbatim>\<open>log_callback\<close>, the values passed to
  \<^verbatim>\<open>update_callback\<close>, and the exceptions printed by the handler of the loop.
\<close>

record reader =
  stop_event :: bool
  logging_enabled :: bool
  csv_file :: "nat option"
  csv_path :: "pystr option"
  row_vars :: "row_locals option"
  handles :: "file_handle list"
  files :: "pystr \<Rightarrow> pystr"
  log_sink :: "pystr list"
  display_sink :: "pyfloat list"
  diag_sink :: "exn list"

text \<open>\<^verbatim>\<open>__init__\<close>, on a disk with the given file contents.\<close>

definition empty_disk :: "pystr \<Rightarrow> pystr" where
  "empty_disk path = []"

definition init :: "(pystr \<Rightarrow> pystr) \<Rightarrow> reader" where
  "init disk =
     \<lparr>stop_event = False, logging_enabled = False, csv_file = None, csv_path = None,
      row_vars = None, handles = [], files = disk, log_sink = [], display_sink = [],
      diag_sink = []\<rparr>"

text \<open>The two callbacks record their argument and return.\<close>

definition log_callback :: "pystr \<Rightarrow> reader \<Rightarrow> reader" where
  "log_callback text st = st\<lparr>log_sink := log_sink st @ [text]\<rparr>"

definition update_callback :: "pyfloat \<Rightarrow> reader \<Rightarrow> reader" where
  "update_callback v st = st\<lparr>display_sink := display_sink st @ [v]\<rparr>"

subsection \<open>File objects\<close>

text \<open>
  \<^verbatim>\<open>open(path, "a")\<close> when it succeeds: a new open file object; the contents of the file
  stay as they are. Writing to an open file object and flushing it are modelled as
  succeeding; on a closed one they raise \<open>ValueError\<close>.
\<close>

definition file_open :: "pystr \<Rightarrow> reader \<Rightarrow> reader" where
  "file_open path st =
     st\<lparr>csv_file := Some (length (handles st)),
        handles := handles st @ [\<lparr>h_path = path, h_open = True, h_buffer = []\<rparr>]\<rparr>"

definition is_open :: "nat \<Rightarrow> reader \<Rightarrow> bool" where
  "is_open h st = (h < length (handles st) \<and> h_open (handles st ! h))"

definition file_write :: "nat \<Rightarrow> pystr \<Rightarrow> reader \<Rightarrow> exn + reader" where
  "file_write h text st =
     (if is_open h st then
        Inr (st\<lparr>handles := (handles st)
               [h := (handles st ! h)\<lparr>h_buffer := h_buffer (handles st ! h) @ text\<rparr>]\<rparr>)
      else Inl ValueError)"

definition flushed :: "nat \<Rightarrow> reader \<Rightarrow> reader" where
  "flushed h st =
     st\<lparr>files := (files st)
            (h_path (handles st ! h) :=
               files st (h_path (handles st ! h)) @ h_buffer (handles st ! h)),
        handles := (handles st)[h := (handles st ! h)\<lparr>h_buffer := []\<rparr>]\<rparr>"

definition file_flush :: "nat \<Rightarrow> reader \<Rightarrow> exn + reader" where
  "file_flush h st = (if is_open h st then Inr (flushed h st) else Inl ValueError)"

text \<open>\<^verbatim>\<open>close()\<close> flushes and closes; on a closed file object it does nothing.\<close>

definition file_close :: "nat \<Rightarrow> reader \<Rightarrow> reader" where
  "file_close h st =
     (if is_open h st then
        (flushed h st)\<lparr>handles := (handles (flushed h st))
                         [h := (handles (flushed h st) ! h)\<lparr>h_open := False\<rparr>]\<rparr>
      else st)"

subsection \<open>\<^verbatim>\<open>stop\<close> and \<^verbatim>\<open>set_logging\<close>\<close>

definition stop :: "reader \<Rightarrow> reader" where
  "stop st = st\<lparr>stop_event := True\<rparr>"

definition set_logging :: "bool \<Rightarrow> pystr option \<Rightarrow> reader \<Rightarrow> reader" where
  "set_logging enabled path st =
     (let st = st\<lparr>logging_enabled := enabled\<rparr> in
      if enabled then st\<lparr>csv_path := path\<rparr>
      else (case csv_file st of
              Some h \<Rightarrow> (file_close h st)\<lparr>csv_file := None\<rparr>
            | None \<Rightarrow> st))"

subsection \<open>One iteration of \<^verbatim>\<open>run\<close>\<close>

text \<open>
  What one iteration of the loop finds outside the thread: the calls that the other
  thread made on the reader since the iteration before (they are applied between
  iterations; an interleaving inside an iteration is not modelled), what the serial port
  answers, the text that \<^verbatim>\<open>time.strftime\<close> returns, and whether creating the directory
  and opening the file would fail, with the text of the exception.
\<close>

datatype ui_call = Stop | Set_logging bool "pystr option"

datatype serial_event =
    In_waiting_raises pystr
  | Nothing_waiting
  | Readline_raises pystr
  | Received pystr

record observation =
  ui_calls :: "ui_call list"
  serial :: serial_event
  clock :: pystr
  open_error :: "pystr option"

text \<open>\<^verbatim>\<open>{v}\<close> in an f-string, for a value that is a float or \<^verbatim>\<open>None\<close>.\<close>

definition fmt :: "runtime \<Rightarrow> pyfloat option \<Rightarrow> pystr" where
  "fmt U v = (case v of None \<Rightarrow> py ''None'' | Some f \<Rightarrow> repr_float U f)"

text \<open>\<^verbatim>\<open>{v if v is not None else ''}\<close>.\<close>

definition fmt_or_empty :: "runtime \<Rightarrow> pyfloat option \<Rightarrow> pystr" where
  "fmt_or_empty U v = (case v of None \<Rightarrow> [] | Some f \<Rightarrow> repr_float U f)"

text \<open>\<^verbatim>\<open>d.get(key)\<close> for a key whose value may be \<^verbatim>\<open>None\<close>.\<close>

definition dict_get :: "'a option option \<Rightarrow> 'a option" where
  "dict_get v = (case v of None \<Rightarrow> None | Some x \<Rightarrow> x)"

text \<open>
  Lines 144 to 149: when the reader has no file object and its path is not empty, create
  the directory and open the file; a failure is passed to \<^verbatim>\<open>log_callback\<close> as text and
  goes no further.
\<close>

definition open_if_needed :: "observation \<Rightarrow> reader \<Rightarrow> reader" where
  "open_if_needed ob st =
     (case csv_path st of
        Some path \<Rightarrow>
          if csv_file st = None \<and> path \<noteq> [] then
            (case open_error ob of
               None \<Rightarrow> file_open path st
             | Some e \<Rightarrow> log_callback (py ''CSV Open Error: '' @ e) st)
          else st
      | None \<Rightarrow> st)"

text \<open>
  Lines 150 to 158: when the reader has a file object, build the row from the row locals,
  write it and flush. The result is the state reached and the exception raised, if any;
  reading an unbound local raises \<open>UnboundLocalError\<close>.
\<close>

definition write_row :: "runtime \<Rightarrow> observation \<Rightarrow> reader \<Rightarrow> reader \<times> exn option" where
  "write_row U ob st =
     (case csv_file st of
        None \<Rightarrow> (st, None)
      | Some h \<Rightarrow>
          (let ts = clock ob in
           case row_vars st of
             None \<Rightarrow> (st, Some UnboundLocalError)
           | Some l \<Rightarrow>
               (let csv_line =
                  ts @ py '','' @ [34] @ flags_str l @ [34] @ py '','' @
                  fmt_or_empty U (main_val l) @ py '','' @
                  [34] @ main_unit_local l @ [34] @ py '','' @
                  fmt_or_empty U (aux_val l) @ py '','' @
                  [34] @ aux_unit_local l @ [34] @ py '','' @
                  battery_str l @ [10]
                in case file_write h csv_line st of
                     Inl e \<Rightarrow> (st, Some e)
                   | Inr st \<Rightarrow>
                       (case file_flush h st of
                          Inl e \<Rightarrow> (st, Some e)
                        | Inr st \<Rightarrow> (st, None)))))"

text \<open>Lines 143 to 158: the CSV part of an iteration.\<close>

definition csv_part :: "runtime \<Rightarrow> observation \<Rightarrow> reader \<Rightarrow> reader \<times> exn option" where
  "csv_part U ob st =
     (if logging_enabled st then write_row U ob (open_if_needed ob st) else (st, None))"

text \<open>Lines 114 to 158: what the loop does with a non-empty line.\<close>

definition process_line ::
  "runtime \<Rightarrow> observation \<Rightarrow> pystr \<Rightarrow> reader \<Rightarrow> reader \<times> exn option" where
  "process_line U ob line st =
     (let st = log_callback (py ''RAW: '' @ line) st in
      case parse_all_measurements U line of
        Inl e \<Rightarrow> (st, Some e)
      | Inr parsed_data \<Rightarrow>
          (let (st, log_str) =
             (case raw parsed_data of
                Some r \<Rightarrow> (st, py ''Raw Data: '' @ r)
              | None \<Rightarrow>
                  (let l = \<lparr>flags_str = py_join (py '' '')
                                (case flags parsed_data of None \<Rightarrow> [] | Some f \<Rightarrow> f),
                            main_val = dict_get (main_value parsed_data),
                            main_unit_local =
                              (case dict_get (main_unit parsed_data) of
                                 None \<Rightarrow> [] | Some u \<Rightarrow> u),
                            aux_val = dict_get (aux_value parsed_data),
                            aux_unit_local =
                              (case dict_get (aux_unit parsed_data) of
                                 None \<Rightarrow> [] | Some u \<Rightarrow> u),
                            battery_str =
                              (if low_battery parsed_data = Some True
                               then py ''LOW BAT'' else py ''OK'')\<rparr>
                   in (st\<lparr>row_vars := Some l\<rparr>,
                       py ''Flags: ['' @ flags_str l @ py ''] | '' @
                       py ''MAIN: '' @ fmt U (main_val l) @ py '' '' @
                       main_unit_local l @ py '' | '' @
                       py ''AUX: '' @ fmt U (aux_val l) @ py '' '' @
                       aux_unit_local l @ py '' | '' @
                       py ''Battery: '' @ battery_str l)));
               st = (case main_value parsed_data of
                       Some (Some v) \<Rightarrow> update_callback v st
                     | _ \<Rightarrow> st);
               st = log_callback log_str st
           in csv_part U ob st))"

text \<open>The body of the \<^verbatim>\<open>try\<close> statement.\<close>

definition body :: "runtime \<Rightarrow> observation \<Rightarrow> reader \<Rightarrow> reader \<times> exn option" where
  "body U ob st =
     (case serial ob of
        In_waiting_raises e \<Rightarrow> (st, Some (SerialException e))
      | Nothing_waiting \<Rightarrow> (st, None)
      | Readline_raises e \<Rightarrow> (st, Some (SerialException e))
      | Received text \<Rightarrow>
          (let line = py_strip U text in
           if line \<noteq> [] then process_line U ob line st else (st, None)))"

text \<open>
  One iteration: the body, and the handler \<^verbatim>\<open>except Exception\<close>, which catches every
  exception of the model, prints it and goes on. The pause after it changes nothing.
\<close>

definition iteration :: "runtime \<Rightarrow> observation \<Rightarrow> reader \<Rightarrow> reader" where
  "iteration U ob st =
     (case body U ob st of
        (st', None) \<Rightarrow> st'
      | (st', Some e) \<Rightarrow> st'\<lparr>diag_sink := diag_sink st' @ [e]\<rparr>)"

subsection \<open>The loop\<close>

fun apply_ui :: "ui_call \<Rightarrow> reader \<Rightarrow> reader" where
  "apply_ui Stop st = stop st"
| "apply_ui (Set_logging enabled path) st = set_logging enabled path st"

text \<open>
  \<^verbatim>\<open>run\<close> over the observations of its successive iterations. As long as the stop event
  is not set the loop goes on; \<open>Running\<close> is a thread that is still in the loop when the
  observations end. When the event is set the loop is left, the file object, if there is
  one, is closed, and the thread ends.
\<close>

datatype thread = Running reader | Exited reader

text \<open>Lines 162 and 163, after the loop: the file object, if there is one, is closed.\<close>

definition finish :: "reader \<Rightarrow> reader" where
  "finish st = (case csv_file st of Some h \<Rightarrow> file_close h st | None \<Rightarrow> st)"

fun run :: "runtime \<Rightarrow> observation list \<Rightarrow> reader \<Rightarrow> thread" where
  "run U [] st = Running st"
| "run U (ob # obs) st =
     (let st = fold apply_ui (ui_calls ob) st in
      if stop_event st then Exited (finish st)
      else run U obs (iteration U ob st))"

subsection \<open>Notions used to state the properties of the loop\<close>

text \<open>A text between double quotes.\<close>

definition quoted :: "pystr \<Rightarrow> pystr" where
  "quoted s = [34] @ s @ [34]"

text \<open>
  The CSV row of a reading, following the specification:
  \<^verbatim>\<open>timestamp,"flags",mainValue,"mainUnit",auxValue,"auxUnit",batteryStatus\<close> and a
  newline, a missing value or unit being empty.
\<close>

definition csv_row :: "runtime \<Rightarrow> pystr \<Rightarrow> parsed \<Rightarrow> pystr" where
  "csv_row U ts p =
     ts @ py '','' @
     quoted (py_join (py '' '') (case flags p of None \<Rightarrow> [] | Some f \<Rightarrow> f)) @ py '','' @
     fmt_or_empty U (dict_get (main_value p)) @ py '','' @
     quoted (case dict_get (main_unit p) of None \<Rightarrow> [] | Some u \<Rightarrow> u) @ py '','' @
     fmt_or_empty U (dict_get (aux_value p)) @ py '','' @
     quoted (case dict_get (aux_unit p) of None \<Rightarrow> [] | Some u \<Rightarrow> u) @ py '','' @
     (if low_battery p = Some True then py ''LOW BAT'' else py ''OK'') @ [10]"

text \<open>
  The file that a row written in this iteration goes to: the file of the file object when
  the reader has an open one; otherwise the file at the stored path, when there is a
  non-empty path and opening it succeeds.
\<close>

definition log_target :: "observation \<Rightarrow> reader \<Rightarrow> pystr option" where
  "log_target ob st =
     (case csv_file st of
        Some h \<Rightarrow> if is_open h st then Some (h_path (handles st ! h)) else None
      | None \<Rightarrow>
          (case csv_path st of
             Some path \<Rightarrow> if path \<noteq> [] \<and> open_error ob = None then Some path else None
           | None \<Rightarrow> None))"

text \<open>The line that lines 153 to 156 build from the row locals.\<close>

definition row_of :: "runtime \<Rightarrow> pystr \<Rightarrow> row_locals \<Rightarrow> pystr" where
  "row_of U ts l = ts @ py '','' @ [34] @ flags_str l @ [34] @ py '','' @
                        fmt_or_empty U (main_val l) @ py '','' @
                        [34] @ main_unit_local l @ [34] @ py '','' @
                        fmt_or_empty U (aux_val l) @ py '','' @
                        [34] @ aux_unit_local l @ [34] @ py '','' @
                        battery_str l @ [10]"

text \<open>The row locals as lines 124 to 129 assign them from a reading.\<close>

definition locals_of :: "parsed \<Rightarrow> row_locals" where
  "locals_of p =
     \<lparr>flags_str = py_join (py '' '') (case flags p of None \<Rightarrow> [] | Some f \<Rightarrow> f),
      main_val = dict_get (main_value p),
      main_unit_local = (case dict_get (main_unit p) of None \<Rightarrow> [] | Some u \<Rightarrow> u),
      aux_val = dict_get (aux_value p),
      aux_unit_local = (case dict_get (aux_unit p) of None \<Rightarrow> [] | Some u \<Rightarrow> u),
      battery_str = (if low_battery p = Some True then py ''LOW BAT'' else py ''OK'')\<rparr>"

text \<open>The summary text \<^verbatim>\<open>log_str\<close> of a reading, lines 121 to 133.\<close>

definition summary :: "runtime \<Rightarrow> parsed \<Rightarrow> pystr" where
  "summary U p =
     (case raw p of
        Some r \<Rightarrow> py ''Raw Data: '' @ r
      | None \<Rightarrow>
          py ''Flags: ['' @ flags_str (locals_of p) @ py ''] | '' @
          py ''MAIN: '' @ fmt U (main_val (locals_of p)) @ py '' '' @
          main_unit_local (locals_of p) @ py '' | '' @
          py ''AUX: '' @ fmt U (aux_val (locals_of p)) @ py '' '' @
          aux_unit_local (locals_of p) @ py '' | '' @
          py ''Battery: '' @ battery_str (locals_of p))"

text \<open>What line 136 passes to the display: the main value, when there is one.\<close>

definition displayed :: "parsed \<Rightarrow> pyfloat list" where
  "displayed p = (case main_value p of Some (Some v) \<Rightarrow> [v] | _ \<Rightarrow> [])"

text \<open>
  The state of an iteration on a line, when the CSV part begins: the row locals are
  assigned for a structured reading and left as they were for a raw one, and the raw
  line, the summary and the main value have been passed to the callbacks.
\<close>

definition before_csv :: "runtime \<Rightarrow> pystr \<Rightarrow> parsed \<Rightarrow> reader \<Rightarrow> reader" where
  "before_csv U line p st =
     st\<lparr>row_vars := (if raw p = None then Some (locals_of p) else row_vars st),
        display_sink := display_sink st @ displayed p,
        log_sink := log_sink st @ [py ''RAW: '' @ line, summary U p]\<rparr>"

text \<open>
  Every file object that is open is the one the reader holds: the thread has left no
  other file open.
\<close>

definition handles_ok :: "reader \<Rightarrow> bool" where
  "handles_ok st =
     (\<forall>i < length (handles st). h_open (handles st ! i) \<longrightarrow> csv_file st = Some i)"

section \<open>Properties of the Python text operations\<close>

lemma py_split1_absent: "\<not> py_in sep s \<Longrightarrow> py_split1 sep s = [s]"
  by (induction s) (auto split: list.splits)

text \<open>
  When the separator occurs, \<^verbatim>\<open>split(sep, 1)\<close> has exactly two parts, so unpacking it
  into two names does not raise.
\<close>

lemma py_split1_present:
  "sep \<noteq> [] \<Longrightarrow> py_in sep s \<Longrightarrow> \<exists>a b. py_split1 sep s = [a, b] \<and> s = a @ sep @ b"
proof (induction s)
  case Nil
  then show ?case by simp
next
  case (Cons c cs)
  show ?case
  proof (cases "prefix sep (c # cs)")
    case True
    then have "c # cs = sep @ drop (length sep) (c # cs)"
      by (auto simp: prefix_def)
    moreover from True have "py_split1 sep (c # cs) = [[], drop (length sep) (c # cs)]"
      by simp
    ultimately show ?thesis by (metis append_Nil)
  next
    case False
    with Cons.prems have "py_in sep cs" by simp
    with Cons.IH Cons.prems obtain a b where "py_split1 sep cs = [a, b]" "cs = a @ sep @ b"
      by blast
    with False show ?thesis by simp
  qed
qed

text \<open>The two parts are those around the first occurrence of the separator.\<close>

lemma py_in_short: "length t < length sep \<Longrightarrow> \<not> py_in sep t"
  by (induction t) (auto dest: prefix_length_le)

lemma py_split1_first:
  "sep \<noteq> [] \<Longrightarrow> py_split1 sep s = [a, b] \<Longrightarrow> \<not> py_in sep (a @ butlast sep)"
proof (induction s arbitrary: a)
  case Nil
  then show ?case by simp
next
  case (Cons c cs)
  show ?case
  proof (cases "prefix sep (c # cs)")
    case True
    with Cons.prems have "a = []" by simp
    with Cons.prems(1) show ?thesis by (simp add: py_in_short)
  next
    case False
    with Cons.prems(2) obtain a' where a': "py_split1 sep cs = [a', b]" "a = c # a'"
      by (auto split: list.splits)
    have "py_in sep cs"
    proof (rule ccontr)
      assume "\<not> py_in sep cs"
      then have "py_split1 sep cs = [cs]" by (rule py_split1_absent)
      with a' show False by simp
    qed
    with Cons.prems(1) a'(1) have cs: "cs = a' @ sep @ b"
      using py_split1_present [of sep cs] by auto
    have "\<not> prefix sep (c # a' @ butlast sep)"
    proof
      assume "prefix sep (c # a' @ butlast sep)"
      moreover have "prefix (c # a' @ butlast sep) (c # cs)"
        using Cons.prems(1) unfolding cs
        by (simp add: prefix_def) (metis append_butlast_last_id append.assoc append_Cons)
      ultimately have "prefix sep (c # cs)" by (rule prefix_order.trans)
      with False show False by simp
    qed
    with Cons.IH [OF Cons.prems(1) a'(1)] a'(2) show ?thesis by simp
  qed
qed

lemma tokens_nonempty: "py ''MAIN:'' \<noteq> []" "py ''AUX:'' \<noteq> []"
  by (simp_all add: py_def)

section \<open>Properties of the pattern\<close>

text \<open>Both groups take part in every match of the pattern.\<close>

lemma main_regex_groups:
  "m \<in> set (rmatch U main_regex s) \<Longrightarrow> \<exists>a b rest. m = ([(1, a), (2, b)], rest)"
  by (auto simp: main_regex_def)

lemma re_search_in: "re_search U r s = Some m \<Longrightarrow> \<exists>t. m \<in> set (rmatch U r t)"
proof (induction s)
  case Nil
  then have "m \<in> set (rmatch U r [])" by (auto split: list.splits)
  then show ?case ..
next
  case (Cons c cs)
  show ?case
  proof (cases "rmatch U r (c # cs)")
    case Nil
    with Cons show ?thesis by simp
  next
    case (Cons m' ms)
    with Cons.prems have "m \<in> set (rmatch U r (c # cs))" by simp
    then show ?thesis ..
  qed
qed

lemma re_search_main_groups:
  assumes "re_search U main_regex s = Some m"
  shows "\<exists>a b rest. m = ([(1, a), (2, b)], rest)"
proof -
  from assms obtain t where "m \<in> set (rmatch U main_regex t)"
    using re_search_in by blast
  then show ?thesis by (rule main_regex_groups)
qed

text \<open>A \<open>ValueError\<close> of \<^verbatim>\<open>float\<close> is caught, and it raises nothing else on a text.\<close>

lemma unsigned_float_error: "unsigned_float U neg b = Inl e \<Longrightarrow> e = ValueError"
  by (auto simp: unsigned_float_def Let_def split: if_splits list.splits option.splits)

lemma py_float_error: "py_float U s = Inl e \<Longrightarrow> e = ValueError"
  by (auto simp: py_float_def dest: unsigned_float_error split: list.splits if_splits)

lemma try_float_Some: "\<exists>v. try_float U (Some s) = Inr v"
proof (cases "py_float U s")
  case (Inl e)
  with py_float_error [of U s e] show ?thesis by (simp add: try_float_def)
next
  case (Inr v)
  then show ?thesis by (simp add: try_float_def)
qed

lemma greedy_rests_member:
  "r \<in> set (greedy_rests P s) \<Longrightarrow> \<exists>w. s = w @ r \<and> list_all P w"
proof (induction s)
  case Nil
  then show ?case by simp
next
  case (Cons c cs)
  show ?case
  proof (cases "r = c # cs")
    case True
    then show ?thesis by simp
  next
    case False
    with Cons.prems have "P c" "r \<in> set (greedy_rests P cs)"
      by (auto split: if_splits)
    with Cons.IH obtain w where "cs = w @ r" "list_all P w" by blast
    with \<open>P c\<close> have "c # cs = (c # w) @ r \<and> list_all P (c # w)" by simp
    then show ?thesis by blast
  qed
qed

lemma greedy_rests_butlast_member:
  "r \<in> set (butlast (greedy_rests P s)) \<Longrightarrow> \<exists>c w. s = c # w @ r \<and> P c \<and> list_all P w"
proof (cases s)
  case Nil
  assume "r \<in> set (butlast (greedy_rests P s))"
  with Nil show ?thesis by simp
next
  case (Cons c cs)
  assume "r \<in> set (butlast (greedy_rests P s))"
  with Cons have "P c" "r \<in> set (greedy_rests P cs)"
    by (auto split: if_splits)
  with greedy_rests_member [of r P cs] Cons show ?thesis by auto
qed


lemma digit_class: "in_class U [Cat_digit] = is_decimal U"
  by (auto simp: fun_eq_iff)

lemma rmatch_One:
  "(g, r) \<in> set (rmatch U (One cl) s) = (g = [] \<and> (\<exists>c. s = c # r \<and> in_class U cl c))"
  by (auto split: list.splits if_splits)

lemma rmatch_Maybe:
  "(g, r) \<in> set (rmatch U (Maybe x) s) = ((g, r) \<in> set (rmatch U x s) \<or> (g, r) = ([], s))"
  by auto

lemma rmatch_Then:
  "(g, r) \<in> set (rmatch U (Then a b) s) =
     (\<exists>g1 s1 g2. (g1, s1) \<in> set (rmatch U a s) \<and> (g2, r) \<in> set (rmatch U b s1) \<and>
        g = g1 @ g2)"
  by force

lemma rmatch_Capture:
  "(g, r) \<in> set (rmatch U (Capture n x) s) =
     (\<exists>g0. (g0, r) \<in> set (rmatch U x s) \<and> g = g0 @ [(n, take (length s - length r) s)])"
  by force

lemma rmatch_Many0:
  "(g, r) \<in> set (rmatch U (Many0 cl) s) \<Longrightarrow>
   g = [] \<and> (\<exists>w. s = w @ r \<and> list_all (in_class U cl) w)"
  using greedy_rests_member [of r "in_class U cl" s] by auto

lemma rmatch_Many1:
  "(g, r) \<in> set (rmatch U (Many1 cl) s) \<Longrightarrow>
   g = [] \<and> (\<exists>w. s = w @ r \<and> w \<noteq> [] \<and> list_all (in_class U cl) w)"
proof -
  assume "(g, r) \<in> set (rmatch U (Many1 cl) s)"
  then have g: "g = []" and "r \<in> set (butlast (greedy_rests (in_class U cl) s))"
    by auto
  from greedy_rests_butlast_member [OF this(2)] obtain c w where
    "s = c # w @ r" "in_class U cl c" "list_all (in_class U cl) w" by blast
  then have "s = (c # w) @ r \<and> c # w \<noteq> [] \<and> list_all (in_class U cl) (c # w)" by simp
  with g show ?thesis by blast
qed

text \<open>The text that the first group of the pattern can capture.\<close>

lemma number_shape:
  assumes "(g, r) \<in> set (rmatch U
             (Then (Maybe (One [Lit 43, Lit 45]))
             (Then (Many1 [Cat_digit])
                   (Maybe (Then (One [Lit 46]) (Many1 [Cat_digit]))))) s)"
  shows "\<exists>sg ds fr. s = sg @ ds @ fr @ r \<and> (sg = [] \<or> sg = [43] \<or> sg = [45]) \<and>
           ds \<noteq> [] \<and> list_all (is_decimal U) ds \<and>
           (fr = [] \<or> (\<exists>fs. fr = 46 # fs \<and> fs \<noteq> [] \<and> list_all (is_decimal U) fs))"
proof -
  from assms obtain g1 s1 g2 s2 g3 where
    sign: "(g1, s1) \<in> set (rmatch U (Maybe (One [Lit 43, Lit 45])) s)" and
    digits: "(g2, s2) \<in> set (rmatch U (Many1 [Cat_digit]) s1)" and
    frac: "(g3, r) \<in> set (rmatch U (Maybe (Then (One [Lit 46]) (Many1 [Cat_digit]))) s2)"
    unfolding rmatch_Then by blast
  from sign obtain sg where sg: "s = sg @ s1" "sg = [] \<or> sg = [43] \<or> sg = [45]"
    unfolding rmatch_Maybe rmatch_One by auto
  from rmatch_Many1 [OF digits] obtain ds where
    ds: "s1 = ds @ s2" "ds \<noteq> []" "list_all (is_decimal U) ds"
    by (auto simp: digit_class)
  from frac have "s2 = r \<or> (\<exists>c t g4. s2 = c # t \<and> c = 46 \<and>
      (g4, r) \<in> set (rmatch U (Many1 [Cat_digit]) t))"
    unfolding rmatch_Maybe rmatch_Then rmatch_One by auto
  then obtain fr where
    fr: "s2 = fr @ r" "fr = [] \<or> (\<exists>fs. fr = 46 # fs \<and> fs \<noteq> [] \<and> list_all (is_decimal U) fs)"
  proof
    assume "s2 = r"
    then have "s2 = [] @ r" by simp
    with that show ?thesis by blast
  next
    assume "\<exists>c t g4. s2 = c # t \<and> c = 46 \<and> (g4, r) \<in> set (rmatch U (Many1 [Cat_digit]) t)"
    then obtain t g4 where t: "s2 = 46 # t" "(g4, r) \<in> set (rmatch U (Many1 [Cat_digit]) t)"
      by blast
    from rmatch_Many1 [OF t(2)] obtain fs where
      "t = fs @ r" "fs \<noteq> []" "list_all (is_decimal U) fs"
      by (auto simp: digit_class)
    with t(1) have "s2 = (46 # fs) @ r" by simp
    with that \<open>fs \<noteq> []\<close> \<open>list_all (is_decimal U) fs\<close> show ?thesis by blast
  qed
  from sg ds fr show ?thesis by auto
qed

lemma digits_value_decimal:
  "list_all (is_decimal U) ds \<Longrightarrow> \<exists>n. digits_value U ds acc = Some n"
  by (induction ds arbitrary: acc) (auto simp: is_decimal_def)

lemma not_decimal_marks: "\<not> is_decimal U 43" "\<not> is_decimal U 45" "\<not> is_decimal U 46"
  by (simp_all add: is_decimal_def decimal_value_def)

lemma takeWhile_run:
  "list_all P ds \<Longrightarrow> fr = [] \<or> \<not> P (hd fr) \<Longrightarrow>
   takeWhile P (ds @ fr) = ds \<and> dropWhile P (ds @ fr) = fr"
  by (induction ds) (auto simp: takeWhile_eq_Nil_iff dropWhile_eq_self_iff)

lemma unsigned_float_number:
  assumes "ds \<noteq> []" "list_all (is_decimal U) ds"
      and "fr = [] \<or> (\<exists>fs. fr = 46 # fs \<and> fs \<noteq> [] \<and> list_all (is_decimal U) fs)"
  shows "\<exists>v. unsigned_float U neg (ds @ fr) = Inr v"
proof -
  from assms(3) have "fr = [] \<or> \<not> is_decimal U (hd fr)"
    by (auto simp: not_decimal_marks)
  from takeWhile_run [OF assms(2) this] have
    run: "takeWhile (is_decimal U) (ds @ fr) = ds" "dropWhile (is_decimal U) (ds @ fr) = fr"
    by simp_all
  have unf: "unsigned_float U neg (ds @ fr) =
     (case fr of
        [] \<Rightarrow> (case digits_value U ds 0 of
                 None \<Rightarrow> Inl ValueError
               | Some n \<Rightarrow> Inr (Decimal neg n 0))
      | c # fp \<Rightarrow>
          if c = 46 \<and> fp \<noteq> [] then
            (case digits_value U (ds @ fp) 0 of
               None \<Rightarrow> Inl ValueError
             | Some n \<Rightarrow> Inr (Decimal neg n (length fp)))
          else Inl ValueError)"
    using assms(1) by (simp only: unsigned_float_def Let_def run if_False)
  show ?thesis
  proof (cases fr)
    case Nil
    with digits_value_decimal [OF assms(2), of 0] show ?thesis
      unfolding unf by auto
  next
    case (Cons c fp)
    with assms(3) have c: "c = 46" "fp \<noteq> []" "list_all (is_decimal U) fp" by auto
    with assms(2) have "list_all (is_decimal U) (ds @ fp)" by simp
    from digits_value_decimal [OF this, of 0] Cons c show ?thesis
      unfolding unf by auto
  qed
qed

lemma py_float_number:
  assumes "sg = [] \<or> sg = [43] \<or> sg = [45]" "ds \<noteq> []" "list_all (is_decimal U) ds"
      and "fr = [] \<or> (\<exists>fs. fr = 46 # fs \<and> fs \<noteq> [] \<and> list_all (is_decimal U) fs)"
  shows "\<exists>v. py_float U (sg @ ds @ fr) = Inr v"
proof -
  from assms(2,3) obtain d rest where d: "ds = d # rest" "is_decimal U d"
    by (cases ds) auto
  then have dn: "d \<noteq> 43" "d \<noteq> 45" using not_decimal_marks by auto
  from assms(1) consider "sg = []" | "sg = [43]" | "sg = [45]" by blast
  then show ?thesis
  proof cases
    case 1
    with d dn have "py_float U (sg @ ds @ fr) = unsigned_float U False (ds @ fr)"
      by (simp add: py_float_def)
    with unsigned_float_number [OF assms(2,3,4)] show ?thesis by simp
  next
    case 2
    then have "py_float U (sg @ ds @ fr) = unsigned_float U False (ds @ fr)"
      by (simp add: py_float_def)
    with unsigned_float_number [OF assms(2,3,4)] show ?thesis by simp
  next
    case 3
    then have "py_float U (sg @ ds @ fr) = unsigned_float U True (ds @ fr)"
      by (simp add: py_float_def)
    with unsigned_float_number [OF assms(2,3,4)] show ?thesis by simp
  qed
qed

text \<open>
  The first group of every match of the pattern is a numeral that \<^verbatim>\<open>float\<close> converts:
  the handler for \<open>ValueError\<close> in the parser is never entered, and a value that was
  matched is never recorded as missing.
\<close>

lemma main_regex_number:
  assumes "m \<in> set (rmatch U main_regex s)"
  shows "\<exists>a v. m_group m 1 = Some a \<and> py_float U a = Inr v"
proof -
  obtain g r where m: "m = (g, r)" by (cases m)
  from assms obtain ga s1 gb where
    a: "(ga, s1) \<in> set (rmatch U (Many0 [Cat_space]) s)" and
    b: "(gb, r) \<in> set (rmatch U
          (Then (Capture 1
                  (Then (Maybe (One [Lit 43, Lit 45]))
                  (Then (Many1 [Cat_digit])
                        (Maybe (Then (One [Lit 46]) (Many1 [Cat_digit]))))))
          (Then (Many0 [Cat_space])
                (Capture 2 (Many1 [Cat_word, Lit 937, Lit 37])))) s1)" and
    gab: "g = ga @ gb"
    unfolding m main_regex_def rmatch_Then [of g r] by blast
  from b obtain gc s2 gd where
    c: "(gc, s2) \<in> set (rmatch U
          (Capture 1
            (Then (Maybe (One [Lit 43, Lit 45]))
            (Then (Many1 [Cat_digit])
                  (Maybe (Then (One [Lit 46]) (Many1 [Cat_digit])))))) s1)" and
    gcd: "gb = gc @ gd"
    unfolding rmatch_Then [of gb r] by blast
  from c obtain g1 where
    num: "(g1, s2) \<in> set (rmatch U
             (Then (Maybe (One [Lit 43, Lit 45]))
             (Then (Many1 [Cat_digit])
                   (Maybe (Then (One [Lit 46]) (Many1 [Cat_digit]))))) s1)" and
    gc: "gc = g1 @ [(1, take (length s1 - length s2) s1)]"
    unfolding rmatch_Capture by blast
  have ga: "ga = []" using rmatch_Many0 [OF a] by simp
  from number_shape [OF num] obtain sg ds fr where
    sh: "s1 = sg @ ds @ fr @ s2" "sg = [] \<or> sg = [43] \<or> sg = [45]" "ds \<noteq> []"
        "list_all (is_decimal U) ds"
        "fr = [] \<or> (\<exists>fs. fr = 46 # fs \<and> fs \<noteq> [] \<and> list_all (is_decimal U) fs)"
    by blast
  have g1: "g1 = []"
    using num unfolding rmatch_Then rmatch_Maybe rmatch_One
    by (auto dest!: rmatch_Many1)
  from sh(1) have "take (length s1 - length s2) s1 = sg @ ds @ fr" by simp
  with gab gcd gc ga g1 m have "m_group m 1 = Some (sg @ ds @ fr)"
    by (simp add: m_group_def)
  with py_float_number [OF sh(2-5)] show ?thesis by blast
qed

lemma re_search_number:
  assumes "re_search U main_regex s = Some m"
  shows "\<exists>a v. m_group m 1 = Some a \<and> py_float U a = Inr v"
proof -
  from assms obtain t where "m \<in> set (rmatch U main_regex t)"
    using re_search_in by blast
  then show ?thesis by (rule main_regex_number)
qed

text \<open>
  A run of two or more digits with nothing after it: the engine first takes the whole run
  as the number, finds no unit, gives the last digit back, and takes that digit as the
  unit.
\<close>

lemma greedy_rests_append:
  "list_all P xs \<Longrightarrow> \<exists>Z. greedy_rests P (xs @ ys) = greedy_rests P ys @ Z"
  by (induction xs) auto

lemma rmatch_search: "rmatch U r s = m # ms \<Longrightarrow> re_search U r s = Some m"
  by (cases s) auto

lemma ascii_digit_classes:
  assumes "ascii_digit d"
  shows "is_decimal U d" "is_word U d" "\<not> is_space U d" "d \<noteq> 43" "d \<noteq> 45" "d \<noteq> 46"
  using assms by (auto simp: ascii_digit_def is_decimal_def decimal_value_def is_word_def is_space_def)

lemma digits_value_ascii:
  "list_all ascii_digit ds \<Longrightarrow> \<exists>n. digits_value U ds acc = Some n"
  by (induction ds arbitrary: acc) (auto simp: ascii_digit_def decimal_value_def)

lemma takeWhile_all: "list_all P xs \<Longrightarrow> takeWhile P xs = xs"
  by (induction xs) auto

lemma main_regex_digits:
  assumes ws: "list_all (is_space U) ws"
      and ds: "list_all ascii_digit xs" "ascii_digit a" "ascii_digit b"
  shows "\<exists>ms. rmatch U main_regex (ws @ xs @ [a, b]) = ([(1, xs @ [a]), (2, [b])], []) # ms"
proof -
  let ?ds = "xs @ [a, b]"
  have hd_ds: "\<exists>d rest. ?ds = d # rest \<and> ascii_digit d"
    using ds by (cases xs) auto
  then obtain d rest where dr: "?ds = d # rest" "ascii_digit d" by blast
  have "greedy_rests (is_space U) ?ds = [?ds]"
    using dr ascii_digit_classes(3) [of d U] by simp
  with greedy_rests_append [OF ws, of ?ds] obtain Z1 where
    z1: "greedy_rests (is_space U) (ws @ ?ds) = ?ds # Z1" by auto
  have "greedy_rests (is_decimal U) [a, b] = [[], [b], [a, b]]"
    using ds ascii_digit_classes(1) by simp
  moreover have "list_all (is_decimal U) xs"
    using ds(1) ascii_digit_classes(1) by (induction xs) auto
  ultimately obtain Z2 where
    z2: "greedy_rests (is_decimal U) ?ds = [] # [b] # [a, b] # Z2"
    using greedy_rests_append [of "is_decimal U" xs "[a, b]"] by auto
  have cls: "in_class U [Cat_space] = is_space U" "in_class U [Cat_digit] = is_decimal U"
    by (auto simp: fun_eq_iff)
  have sign: "rmatch U (One [Lit 43, Lit 45]) ?ds = []"
    using dr ascii_digit_classes(4,5) [of d] by simp
  have b: "\<not> is_space U b" "is_word U b" "b \<noteq> 46"
    using ds ascii_digit_classes by auto
  show ?thesis
    using z1 z2 sign b
    by (simp add: main_regex_def cls)
qed

section \<open>Properties of the parser\<close>

text \<open>
  Each of the two blocks of the source that search a text and store a value and a unit
  computes the extraction, and does not raise.
\<close>

lemma extraction_block:
  "(case re_search U main_regex text of
      Some m \<Rightarrow> and_then (try_float U (m_group m 1)) (\<lambda>v. Inr (f v (m_group m 2)))
    | None \<Rightarrow> Inr (f None None))
   = Inr (f (fst (extraction U text)) (snd (extraction U text)))"
proof (cases "re_search U main_regex text")
  case None
  then show ?thesis by (simp add: extraction_def)
next
  case (Some m)
  then obtain a b rest where m: "m = ([(1, a), (2, b)], rest)"
    using re_search_main_groups by blast
  obtain v where v: "try_float U (Some a) = Inr v"
    using try_float_Some by blast
  from Some m v show ?thesis
    by (simp add: extraction_def m_group_def and_then_def)
qed

lemma parse_raw:
  "\<not> py_in (py ''MAIN:'') message \<Longrightarrow>
   parse_all_measurements U message = Inr (empty_dict\<lparr>raw := Some message\<rparr>)"
  by (simp add: parse_all_measurements_def)

text \<open>
  What the parser returns for a line that contains \<^verbatim>\<open>MAIN:\<close>: it does not raise, and
  every field but \<open>raw\<close> is set.
\<close>

lemma parse_structured:
  assumes "py_in (py ''MAIN:'') message"
  shows "\<exists>pre_main post_main.
           py_split1 (py ''MAIN:'') message = [pre_main, post_main] \<and>
           message = pre_main @ py ''MAIN:'' @ post_main \<and>
           parse_all_measurements U message =
             Inr \<lparr>flags = Some (py_split_ws U (py_strip U pre_main)),
                  main_value = Some (fst (extraction U post_main)),
                  main_unit = Some (snd (extraction U post_main)),
                  aux_value = Some (if py_in (py ''AUX:'') post_main
                     then fst (extraction U (py_split1 (py ''AUX:'') post_main ! 1)) else None),
                  aux_unit = Some (if py_in (py ''AUX:'') post_main
                     then snd (extraction U (py_split1 (py ''AUX:'') post_main ! 1)) else None),
                  low_battery = Some (py_in (py ''LOW BAT'') message), raw = None\<rparr>"
proof -
  from assms obtain pre post where
    sp: "py_split1 (py ''MAIN:'') message = [pre, post]" "message = pre @ py ''MAIN:'' @ post"
    using py_split1_present [OF tokens_nonempty(1)] by blast
  let ?p0 = "empty_dict\<lparr>flags := Some (py_split_ws U (py_strip U pre))\<rparr>"
  have main: "(case re_search U main_regex post of
      Some m \<Rightarrow> and_then (try_float U (m_group m 1))
         (\<lambda>v. Inr (?p0\<lparr>main_value := Some v, main_unit := Some (m_group m 2)\<rparr>))
    | None \<Rightarrow> Inr (?p0\<lparr>main_value := Some None, main_unit := Some None\<rparr>))
   = Inr (?p0\<lparr>main_value := Some (fst (extraction U post)),
               main_unit := Some (snd (extraction U post))\<rparr>)"
    by (rule extraction_block
          [where f = "\<lambda>v u. ?p0\<lparr>main_value := Some v, main_unit := Some u\<rparr>"])
  show ?thesis
  proof (cases "py_in (py ''AUX:'') post")
    case False
    with assms sp have "parse_all_measurements U message =
       Inr (?p0\<lparr>main_value := Some (fst (extraction U post)),
               main_unit := Some (snd (extraction U post)),
               aux_value := Some None, aux_unit := Some None,
               low_battery := Some (py_in (py ''LOW BAT'') message)\<rparr>)"
      by (simp add: parse_all_measurements_def Let_def main and_then_def)
    with sp False show ?thesis
      by (simp add: empty_dict_def)
  next
    case True
    then obtain b aux where ax: "py_split1 (py ''AUX:'') post = [b, aux]"
      using py_split1_present [OF tokens_nonempty(2)] by blast
    let ?p1 = "?p0\<lparr>main_value := Some (fst (extraction U post)),
               main_unit := Some (snd (extraction U post))\<rparr>"
    have aux: "(case re_search U main_regex aux of
        Some m \<Rightarrow> and_then (try_float U (m_group m 1))
           (\<lambda>v. Inr (?p1\<lparr>aux_value := Some v, aux_unit := Some (m_group m 2)\<rparr>))
      | None \<Rightarrow> Inr (?p1\<lparr>aux_value := Some None, aux_unit := Some None\<rparr>))
     = Inr (?p1\<lparr>aux_value := Some (fst (extraction U aux)),
                 aux_unit := Some (snd (extraction U aux))\<rparr>)"
      by (rule extraction_block
            [where f = "\<lambda>v u. ?p1\<lparr>aux_value := Some v, aux_unit := Some u\<rparr>"])
    from assms sp True ax have "parse_all_measurements U message =
       Inr (?p1\<lparr>aux_value := Some (fst (extraction U aux)),
                 aux_unit := Some (snd (extraction U aux)),
               low_battery := Some (py_in (py ''LOW BAT'') message)\<rparr>)"
      by (simp add: parse_all_measurements_def Let_def main aux and_then_def)
    with sp True ax show ?thesis
      by (simp add: empty_dict_def)
  qed
qed

lemma dropWhile_all: "list_all P xs \<Longrightarrow> dropWhile P xs = []"
  by (induction xs) auto

lemma py_float_digits:
  assumes "list_all ascii_digit ds" "ds \<noteq> []" "digits_value U ds 0 = Some n"
  shows "py_float U ds = Inr (Decimal False n 0)"
proof -
  from assms obtain d rest where dr: "ds = d # rest" "ascii_digit d"
    by (cases ds) auto
  have all: "list_all (is_decimal U) ds"
    using assms(1) ascii_digit_classes(1) by (induction ds) auto
  have "takeWhile (is_decimal U) ds = ds" "dropWhile (is_decimal U) ds = []"
    using all by (simp_all add: takeWhile_all dropWhile_all)
  moreover have "d \<noteq> 43" "d \<noteq> 45"
    using dr ascii_digit_classes by auto
  ultimately show ?thesis
    using assms dr by (simp add: py_float_def unsigned_float_def Let_def)
qed

lemma two_last: "2 \<le> length ds \<Longrightarrow> \<exists>xs a b. ds = xs @ [a, b]"
proof (induction ds rule: rev_induct)
  case Nil
  then show ?case by simp
next
  case (snoc b ys)
  then have "ys \<noteq> []" by auto
  then obtain xs a where "ys = xs @ [a]" by (metis rev_exhaust)
  then show ?case by simp
qed

lemma extraction_digits:
  assumes ws: "list_all (is_space U) ws"
      and ds: "list_all ascii_digit ds" "2 \<le> length ds"
  shows "\<exists>n. digits_value U (butlast ds) 0 = Some n \<and>
             extraction U (ws @ ds) = (Some (Decimal False n 0), Some [last ds])"
proof -
  from ds(2) obtain xs a b where split: "ds = xs @ [a, b]"
    using two_last by blast
  with ds(1) have parts: "list_all ascii_digit xs" "ascii_digit a" "ascii_digit b"
    by auto
  then have front: "list_all ascii_digit (xs @ [a])" by simp
  then obtain n where n: "digits_value U (xs @ [a]) 0 = Some n"
    using digits_value_ascii by blast
  from front n have fl: "py_float U (xs @ [a]) = Inr (Decimal False n 0)"
    by (intro py_float_digits) auto
  obtain ms where "rmatch U main_regex (ws @ xs @ [a, b]) = ([(1, xs @ [a]), (2, [b])], []) # ms"
    using main_regex_digits [OF ws parts] by blast
  then have "re_search U main_regex (ws @ xs @ [a, b]) = Some ([(1, xs @ [a]), (2, [b])], [])"
    by (rule rmatch_search)
  with fl have "extraction U (ws @ ds) = (Some (Decimal False n 0), Some [b])"
    by (simp add: extraction_def split m_group_def try_float_def)
  moreover have "butlast ds = xs @ [a]" "last ds = b"
    by (simp_all add: split butlast_append)
  ultimately show ?thesis using n by simp
qed

lemmas eval_defs = parse_all_measurements_def py_def main_regex_def empty_dict_def
  and_then_def try_float_def py_float_def unsigned_float_def m_group_def py_strip_def is_space_def
  is_decimal_def decimal_value_def is_word_def extraction_def Let_def

text \<open>
  Claim C6. Parsing the line \<^verbatim>\<open>AUTO MAIN: -3.2 mV AUX: 100 Hz LOW BAT\<close> gives the flags
  \<^verbatim>\<open>["AUTO"]\<close>, the main value \<open>-3.2\<close> with unit \<^verbatim>\<open>mV\<close>, the auxiliary value \<open>100\<close> with
  unit \<^verbatim>\<open>Hz\<close>, and the low-battery mark set, whatever the runtime.
\<close>

theorem parse_auto_example:
  "parse_all_measurements U (py ''AUTO MAIN: -3.2 mV AUX: 100 Hz LOW BAT'') =
     Inr \<lparr>flags = Some [py ''AUTO''],
          main_value = Some (Some (Decimal True 32 1)),
          main_unit = Some (Some (py ''mV'')),
          aux_value = Some (Some (Decimal False 100 0)),
          aux_unit = Some (Some (py ''Hz'')),
          low_battery = Some True, raw = None\<rparr>"
  by (simp add: eval_defs)

text \<open>
  Claim C4. For every line the parser returns a reading, and the reading is either
  structured (the keys \<open>flags\<close>, \<open>main_value\<close>, \<open>main_unit\<close>, \<open>aux_value\<close>, \<open>aux_unit\<close>
  and \<open>low_battery\<close> present, \<open>raw\<close> absent) or raw (\<open>raw\<close> present with the line, every
  other key absent), never both.
\<close>

theorem parse_structured_or_raw:
  "\<exists>p. parse_all_measurements U message = Inr p \<and>
     ((\<exists>f mv mu av au lb.
         flags p = Some f \<and> main_value p = Some mv \<and> main_unit p = Some mu \<and>
         aux_value p = Some av \<and> aux_unit p = Some au \<and> low_battery p = Some lb \<and>
         raw p = None) \<or>
      (raw p = Some message \<and> flags p = None \<and> main_value p = None \<and> main_unit p = None \<and>
         aux_value p = None \<and> aux_unit p = None \<and> low_battery p = None))"
proof (cases "py_in (py ''MAIN:'') message")
  case True
  from parse_structured [OF True, of U] show ?thesis by auto
next
  case False
  then show ?thesis by (simp add: parse_raw empty_dict_def)
qed

text \<open>
  Claim C7. For a line that does not contain \<^verbatim>\<open>MAIN:\<close> the parser returns the raw reading:
  \<open>raw\<close> is the line unchanged and no other key is present.
\<close>

theorem parse_without_main:
  assumes "\<not> py_in (py ''MAIN:'') message"
  shows "parse_all_measurements U message =
     Inr \<lparr>flags = None, main_value = None, main_unit = None, aux_value = None,
          aux_unit = None, low_battery = None, raw = Some message\<rparr>"
  using assms by (simp add: parse_raw empty_dict_def)

theorem parse_without_main_witness:
  "\<not> py_in (py ''MAIN:'') (py ''garbage text'') \<and>
   parse_all_measurements plain_runtime (py ''garbage text'') =
     Inr \<lparr>flags = None, main_value = None, main_unit = None, aux_value = None,
          aux_unit = None, low_battery = None, raw = Some (py ''garbage text'')\<rparr>"
proof -
  have h: "\<not> py_in (py ''MAIN:'') (py ''garbage text'')"
    by (simp add: py_def)
  from h parse_without_main [OF h, of plain_runtime] show ?thesis by simp
qed

text \<open>
  Claim C2 as stated fails. In \<^verbatim>\<open>MAIN: AUX: 5 V\<close> the main match is \<^verbatim>\<open> 5 V\<close>, found after
  the \<^verbatim>\<open>AUX:\<close> token, and nothing remains after it; the remaining text does not contain
  \<^verbatim>\<open>AUX:\<close>, and yet the auxiliary value and unit are extracted.
\<close>

theorem aux_applied_outside_remaining_text:
  "py_in (py ''MAIN:'') (py ''MAIN: AUX: 5 V'') \<and>
   py_split1 (py ''MAIN:'') (py ''MAIN: AUX: 5 V'') = [[], py '' AUX: 5 V''] \<and>
   remaining_after_main plain_runtime (py '' AUX: 5 V'') = [] \<and>
   \<not> py_in (py ''AUX:'') (remaining_after_main plain_runtime (py '' AUX: 5 V'')) \<and>
   parse_all_measurements plain_runtime (py ''MAIN: AUX: 5 V'') =
     Inr \<lparr>flags = Some [], main_value = Some (Some (Decimal False 5 0)),
          main_unit = Some (Some (py ''V'')),
          aux_value = Some (Some (Decimal False 5 0)),
          aux_unit = Some (Some (py ''V'')),
          low_battery = Some False, raw = None\<rparr>"
  by (simp add: eval_defs remaining_after_main_def plain_runtime_def)

text \<open>
  Claim C2, amended. For a line that contains \<^verbatim>\<open>MAIN:\<close>, the parser tests the whole text
  after the first \<^verbatim>\<open>MAIN:\<close> for \<^verbatim>\<open>AUX:\<close>, not only the part after the main match. When
  that text contains \<^verbatim>\<open>AUX:\<close>, the auxiliary value and unit are the extraction applied to
  the text after its first \<^verbatim>\<open>AUX:\<close>, the same extraction that gives the main value and
  unit from the text after the first \<^verbatim>\<open>MAIN:\<close>; otherwise both are present with the value
  \<^verbatim>\<open>None\<close>.
\<close>

theorem aux_extraction:
  assumes "py_in (py ''MAIN:'') message"
  shows "\<exists>pre_main post_main p.
           message = pre_main @ py ''MAIN:'' @ post_main \<and>
           \<not> py_in (py ''MAIN:'') (pre_main @ py ''MAIN'') \<and>
           parse_all_measurements U message = Inr p \<and>
           main_value p = Some (fst (extraction U post_main)) \<and>
           main_unit p = Some (snd (extraction U post_main)) \<and>
           (if py_in (py ''AUX:'') post_main
            then \<exists>before aux_part.
                   post_main = before @ py ''AUX:'' @ aux_part \<and>
                   \<not> py_in (py ''AUX:'') (before @ py ''AUX'') \<and>
                   aux_value p = Some (fst (extraction U aux_part)) \<and>
                   aux_unit p = Some (snd (extraction U aux_part))
            else aux_value p = Some None \<and> aux_unit p = Some None)"
proof -
  have bl: "butlast (py ''MAIN:'') = py ''MAIN''" "butlast (py ''AUX:'') = py ''AUX''"
    by (simp_all add: py_def)
  from parse_structured [OF assms, of U] obtain pre post p where
    p: "py_split1 (py ''MAIN:'') message = [pre, post]"
       "message = pre @ py ''MAIN:'' @ post"
       "parse_all_measurements U message = Inr p"
       "aux_value p = Some (if py_in (py ''AUX:'') post
           then fst (extraction U (py_split1 (py ''AUX:'') post ! 1)) else None)"
       "aux_unit p = Some (if py_in (py ''AUX:'') post
           then snd (extraction U (py_split1 (py ''AUX:'') post ! 1)) else None)"
       "main_value p = Some (fst (extraction U post))"
       "main_unit p = Some (snd (extraction U post))"
    by force
  have first: "\<not> py_in (py ''MAIN:'') (pre @ py ''MAIN'')"
    using py_split1_first [OF tokens_nonempty(1) p(1)] by (simp add: bl)
  show ?thesis
  proof (cases "py_in (py ''AUX:'') post")
    case True
    then obtain b aux where
      ax: "py_split1 (py ''AUX:'') post = [b, aux]" "post = b @ py ''AUX:'' @ aux"
      using py_split1_present [OF tokens_nonempty(2)] by blast
    have "\<not> py_in (py ''AUX:'') (b @ py ''AUX'')"
      using py_split1_first [OF tokens_nonempty(2) ax(1)] by (simp add: bl)
    with p first True ax show ?thesis by auto
  next
    case False
    with p first show ?thesis by auto
  qed
qed

theorem aux_extraction_witness:
  "py_in (py ''MAIN:'') (py ''MAIN: 1 V AUX: 2 A'') \<and>
   (\<exists>pre_main post_main p.
      py ''MAIN: 1 V AUX: 2 A'' = pre_main @ py ''MAIN:'' @ post_main \<and>
      \<not> py_in (py ''MAIN:'') (pre_main @ py ''MAIN'') \<and>
      parse_all_measurements plain_runtime (py ''MAIN: 1 V AUX: 2 A'') = Inr p \<and>
      main_value p = Some (fst (extraction plain_runtime post_main)) \<and>
      main_unit p = Some (snd (extraction plain_runtime post_main)) \<and>
      (if py_in (py ''AUX:'') post_main
       then \<exists>before aux_part.
              post_main = before @ py ''AUX:'' @ aux_part \<and>
              \<not> py_in (py ''AUX:'') (before @ py ''AUX'') \<and>
              aux_value p = Some (fst (extraction plain_runtime aux_part)) \<and>
              aux_unit p = Some (snd (extraction plain_runtime aux_part))
       else aux_value p = Some None \<and> aux_unit p = Some None)) \<and>
   parse_all_measurements plain_runtime (py ''MAIN: 1 V AUX: 2 A'') =
     Inr \<lparr>flags = Some [], main_value = Some (Some (Decimal False 1 0)),
          main_unit = Some (Some (py ''V'')),
          aux_value = Some (Some (Decimal False 2 0)),
          aux_unit = Some (Some (py ''A'')),
          low_battery = Some False, raw = None\<rparr>"
proof -
  have h: "py_in (py ''MAIN:'') (py ''MAIN: 1 V AUX: 2 A'')"
    by (simp add: py_def)
  have e: "parse_all_measurements plain_runtime (py ''MAIN: 1 V AUX: 2 A'') =
     Inr \<lparr>flags = Some [], main_value = Some (Some (Decimal False 1 0)),
          main_unit = Some (Some (py ''V'')),
          aux_value = Some (Some (Decimal False 2 0)),
          aux_unit = Some (Some (py ''A'')),
          low_battery = Some False, raw = None\<rparr>"
    by (simp add: eval_defs)
  from h aux_extraction [OF h, of plain_runtime] e show ?thesis by (intro conjI)
qed

text \<open>
  Claim C9. When the text after the first \<^verbatim>\<open>MAIN:\<close> is blanks followed by a run of two or
  more digits and nothing else, the parser reports a main value and a main unit: the
  value is the number written by all the digits but the last, and the unit is the last
  digit. For \<^verbatim>\<open>MAIN: 123\<close> the value is \<open>12\<close> and the unit is \<^verbatim>\<open>3\<close>.
\<close>

theorem digits_split_by_backtracking:
  assumes "py_split1 (py ''MAIN:'') message = [pre_main, ws @ ds]"
      and "list_all (is_space U) ws"
      and "list_all ascii_digit ds"
      and "2 \<le> length ds"
  shows "\<exists>n p. digits_value U (butlast ds) 0 = Some n \<and>
               parse_all_measurements U message = Inr p \<and>
               main_value p = Some (Some (Decimal False n 0)) \<and>
               main_unit p = Some (Some [last ds])"
proof -
  have present: "py_in (py ''MAIN:'') message"
  proof (rule ccontr)
    assume "\<not> py_in (py ''MAIN:'') message"
    then have "py_split1 (py ''MAIN:'') message = [message]"
      by (rule py_split1_absent)
    with assms(1) show False by simp
  qed
  from parse_structured [OF present, of U] assms(1) obtain p where
    p: "parse_all_measurements U message = Inr p"
       "main_value p = Some (fst (extraction U (ws @ ds)))"
       "main_unit p = Some (snd (extraction U (ws @ ds)))"
    by force
  from extraction_digits [OF assms(2,3,4)] obtain n where
    "digits_value U (butlast ds) 0 = Some n"
    "extraction U (ws @ ds) = (Some (Decimal False n 0), Some [last ds])"
    by blast
  with p show ?thesis by simp
qed

theorem digits_split_by_backtracking_witness:
  "py_split1 (py ''MAIN:'') (py ''MAIN: 123'') = [[], py '' '' @ py ''123''] \<and>
   list_all (is_space plain_runtime) (py '' '') \<and>
   list_all ascii_digit (py ''123'') \<and>
   2 \<le> length (py ''123'') \<and>
   digits_value plain_runtime (butlast (py ''123'')) 0 = Some 12 \<and>
   last (py ''123'') = 51 \<and>
   parse_all_measurements plain_runtime (py ''MAIN: 123'') =
     Inr \<lparr>flags = Some [], main_value = Some (Some (Decimal False 12 0)),
          main_unit = Some (Some (py ''3'')), aux_value = Some None,
          aux_unit = Some None, low_battery = Some False, raw = None\<rparr>"
proof -
  have h: "py_split1 (py ''MAIN:'') (py ''MAIN: 123'') = [[], py '' '' @ py ''123'']"
          "list_all (is_space plain_runtime) (py '' '')"
          "list_all ascii_digit (py ''123'')"
          "2 \<le> length (py ''123'')"
    by (simp_all add: py_def is_space_def ascii_digit_def)
  from digits_split_by_backtracking [OF h] h show ?thesis
    by (simp add: eval_defs)
qed

section \<open>Properties of the reader loop\<close>

lemma csv_part_open_handle:
  assumes "logging_enabled st" "csv_file st = Some h" "is_open h st"
          "h_buffer (handles st ! h) = []" "row_vars st = Some l"
  shows "csv_part U ob st =
     (st\<lparr>files := (files st)(h_path (handles st ! h) :=
            files st (h_path (handles st ! h)) @
              (clock ob @ py '','' @ [34] @ flags_str l @ [34] @ py '','' @
                        fmt_or_empty U (main_val l) @ py '','' @
                        [34] @ main_unit_local l @ [34] @ py '','' @
                        fmt_or_empty U (aux_val l) @ py '','' @
                        [34] @ aux_unit_local l @ [34] @ py '','' @
                        battery_str l @ [10])),
         handles := (handles st)[h := (handles st ! h)\<lparr>h_buffer := []\<rparr>]\<rparr>, None)"
  using assms
  by (cases "csv_path st")
     (simp_all add: csv_part_def open_if_needed_def write_row_def Let_def file_write_def file_flush_def is_open_def flushed_def)

lemma csv_part_ready:
  assumes "logging_enabled st" "log_target ob st = Some q" "row_vars st = Some l"
      and "\<And>h. csv_file st = Some h \<Longrightarrow> h_buffer (handles st ! h) = []"
  shows "\<exists>st' h. csv_part U ob st = (st', None) \<and>
           files st' = (files st)(q := files st q @ row_of U (clock ob) l) \<and>
           csv_file st' = Some h \<and> is_open h st' \<and> h_path (handles st' ! h) = q \<and>
           h_buffer (handles st' ! h) = [] \<and>
           log_sink st' = log_sink st \<and> display_sink st' = display_sink st \<and>
           diag_sink st' = diag_sink st"
proof (cases "csv_file st")
  case (Some h)
  with assms(2) have op: "is_open h st" "h_path (handles st ! h) = q"
    by (auto simp: log_target_def split: if_splits)
  from assms(4) Some have "h_buffer (handles st ! h) = []" by simp
  from csv_part_open_handle [OF assms(1) Some op(1) this assms(3), of U ob] op Some
  show ?thesis
    by (simp add: row_of_def is_open_def)
next
  case None
  with assms(2) obtain path where
    path: "csv_path st = Some path" "path \<noteq> []" "open_error ob = None" "q = path"
    by (auto simp: log_target_def split: option.splits if_splits)
  with None assms(1,3) show ?thesis
    by (simp add: csv_part_def open_if_needed_def write_row_def Let_def file_open_def file_write_def file_flush_def
          is_open_def flushed_def row_of_def nth_append)
qed

lemma process_line_parsed:
  assumes "parse_all_measurements U line = Inr p"
  shows "process_line U ob line st = csv_part U ob (before_csv U line p st)"
proof -
  have disp: "(case main_value p of Some (Some v) \<Rightarrow> update_callback v s | _ \<Rightarrow> s)
      = s\<lparr>display_sink := display_sink s @ displayed p\<rparr>" for s
    by (auto simp: displayed_def update_callback_def split: option.splits)
  show ?thesis
  proof (cases "raw p")
    case None
    with assms show ?thesis
      unfolding process_line_def Let_def
      by (simp add: disp log_callback_def summary_def locals_of_def before_csv_def)
  next
    case (Some r)
    with assms show ?thesis
      unfolding process_line_def Let_def
      by (simp add: disp log_callback_def summary_def before_csv_def)
  qed
qed

lemma row_of_locals: "row_of U ts (locals_of p) = csv_row U ts p"
  by (simp add: row_of_def csv_row_def locals_of_def quoted_def)

lemma parse_total:
  "\<exists>p. parse_all_measurements U line = Inr p \<and> (raw p = None) = py_in (py ''MAIN:'') line"
proof (cases "py_in (py ''MAIN:'') line")
  case True
  with parse_structured [OF True, of U] show ?thesis by auto
next
  case False
  then show ?thesis by (simp add: parse_raw empty_dict_def)
qed

lemma before_csv_frame:
  "stop_event (before_csv U line p st) = stop_event st"
  "logging_enabled (before_csv U line p st) = logging_enabled st"
  "csv_file (before_csv U line p st) = csv_file st"
  "csv_path (before_csv U line p st) = csv_path st"
  "handles (before_csv U line p st) = handles st"
  "files (before_csv U line p st) = files st"
  "diag_sink (before_csv U line p st) = diag_sink st"
  "is_open h (before_csv U line p st) = is_open h st"
  by (simp_all add: before_csv_def is_open_def)

lemma log_target_before_csv:
  "log_target ob (before_csv U line p st) = log_target ob st"
  by (simp add: log_target_def before_csv_frame split: option.splits)

lemma iteration_line:
  assumes "serial ob = Received text" "py_strip U text \<noteq> []"
          "parse_all_measurements U (py_strip U text) = Inr p"
  shows "body U ob st = csv_part U ob (before_csv U (py_strip U text) p st)"
  using assms by (simp add: body_def Let_def process_line_parsed)

lemmas loop_defs = empty_disk_def iteration_def body_def process_line_def csv_part_def open_if_needed_def write_row_def set_logging_def init_def
  log_callback_def update_callback_def file_open_def file_write_def file_flush_def flushed_def
  file_close_def is_open_def fmt_def fmt_or_empty_def dict_get_def stop_def
  plain_runtime_def plain_repr_def

text \<open>
  An iteration on a structured line, with logging enabled and a file to write to, appends
  the row of the line's reading to that file and flushes it.
\<close>

lemma iteration_appends_row:
  assumes "logging_enabled st"
      and "serial ob = Received text"
      and "py_strip U text \<noteq> []"
      and "py_in (py ''MAIN:'') (py_strip U text)"
      and "log_target ob st = Some q"
      and "\<And>h. csv_file st = Some h \<Longrightarrow> h_buffer (handles st ! h) = []"
  shows "\<exists>p h. parse_all_measurements U (py_strip U text) = Inr p \<and>
           files (iteration U ob st) =
             (files st)(q := files st q @ csv_row U (clock ob) p) \<and>
           csv_file (iteration U ob st) = Some h \<and>
           is_open h (iteration U ob st) \<and>
           h_path (handles (iteration U ob st) ! h) = q \<and>
           h_buffer (handles (iteration U ob st) ! h) = []"
proof -
  obtain p where p: "parse_all_measurements U (py_strip U text) = Inr p" "raw p = None"
    using parse_total [of U "py_strip U text"] assms(4) by auto
  let ?st3 = "before_csv U (py_strip U text) p st"
  have b: "body U ob st = csv_part U ob ?st3"
    using assms(2,3) p(1) by (rule iteration_line)
  have "logging_enabled ?st3" "log_target ob ?st3 = Some q"
       "row_vars ?st3 = Some (locals_of p)"
       "\<And>h. csv_file ?st3 = Some h \<Longrightarrow> h_buffer (handles ?st3 ! h) = []"
    using assms(1,5,6) p(2)
    by (simp_all add: before_csv_frame log_target_before_csv) (simp add: before_csv_def)
  from csv_part_ready [OF this, of U] obtain st' h where
    r: "csv_part U ob ?st3 = (st', None)"
       "files st' = (files ?st3)(q := files ?st3 q @ row_of U (clock ob) (locals_of p))"
       "csv_file st' = Some h" "is_open h st'" "h_path (handles st' ! h) = q"
       "h_buffer (handles st' ! h) = []"
    by blast
  have "iteration U ob st = st'"
    using b r(1) by (simp add: iteration_def)
  with r p(1) show ?thesis
    by (simp add: row_of_locals before_csv_frame)
qed

text \<open>
  Claim C1 as stated fails. With logging enabled and the file opening without error, a
  first line \<^verbatim>\<open>garbage text\<close> leaves the file empty: the row locals are unbound, building
  the row raises, and the handler of the loop goes on. After the line
  \<^verbatim>\<open>MAIN: 12.5 V DC\<close>, the line \<^verbatim>\<open>garbage text\<close> appends a second row that carries the
  data of the line before it. And when the file cannot be opened, a structured line
  appends no row.
\<close>

theorem row_missing_or_stale:
  "logging_enabled (set_logging True (Some (py ''/tmp/log.csv'')) (init empty_disk)) \<and>
   py_strip plain_runtime (py ''garbage text'') = py ''garbage text'' \<and>
   files (iteration plain_runtime
            \<lparr>ui_calls = [], serial = Received (py ''garbage text''),
             clock = py ''2026-01-01 00:00:00'', open_error = None\<rparr>
            (set_logging True (Some (py ''/tmp/log.csv'')) (init empty_disk)))
         (py ''/tmp/log.csv'') = [] \<and>
   files (iteration plain_runtime
            \<lparr>ui_calls = [], serial = Received (py ''garbage text''),
             clock = py ''2026-01-01 00:00:01'', open_error = None\<rparr>
            (iteration plain_runtime
               \<lparr>ui_calls = [], serial = Received (py ''MAIN: 12.5 V DC''),
                clock = py ''2026-01-01 00:00:00'', open_error = None\<rparr>
               (set_logging True (Some (py ''/tmp/log.csv'')) (init empty_disk))))
         (py ''/tmp/log.csv'') =
     py ''2026-01-01 00:00:00,\"\",12.5,\"V\",,\"\",OK\<newline>'' @
     py ''2026-01-01 00:00:01,\"\",12.5,\"V\",,\"\",OK\<newline>'' \<and>
   files (iteration plain_runtime
            \<lparr>ui_calls = [], serial = Received (py ''MAIN: 12.5 V DC''),
             clock = py ''2026-01-01 00:00:00'', open_error = Some (py ''denied'')\<rparr>
            (set_logging True (Some (py ''/tmp/log.csv'')) (init empty_disk)))
         (py ''/tmp/log.csv'') = []"
  by (simp add: loop_defs eval_defs)

text \<open>
  Claim C1, amended. Whenever logging is enabled and the reader has an open file object,
  or has none and opens the file at its stored path without error, then for every
  non-empty decoded line that contains \<^verbatim>\<open>MAIN:\<close> the iteration appends exactly the CSV row
  of that line's reading to that file and changes no other file, and the row is flushed:
  the file object is open and nothing is left in its buffer.
\<close>

theorem csv_row_appended:
  assumes "logging_enabled st"
      and "serial ob = Received text"
      and "py_strip U text \<noteq> []"
      and "py_in (py ''MAIN:'') (py_strip U text)"
      and "log_target ob st = Some q"
      and "\<And>h. csv_file st = Some h \<Longrightarrow> h_buffer (handles st ! h) = []"
  shows "\<exists>p h. parse_all_measurements U (py_strip U text) = Inr p \<and>
           files (iteration U ob st) =
             (files st)(q := files st q @ csv_row U (clock ob) p) \<and>
           csv_file (iteration U ob st) = Some h \<and>
           is_open h (iteration U ob st) \<and>
           h_path (handles (iteration U ob st) ! h) = q \<and>
           h_buffer (handles (iteration U ob st) ! h) = []"
  using assms by (rule iteration_appends_row)

theorem csv_row_appended_witness:
  "logging_enabled (set_logging True (Some (py ''/tmp/log.csv'')) (init empty_disk)) \<and>
   py_strip plain_runtime (py ''AUTO MAIN: -3.2 mV AUX: 100 Hz LOW BAT\<newline>'') =
     py ''AUTO MAIN: -3.2 mV AUX: 100 Hz LOW BAT'' \<and>
   py_in (py ''MAIN:'') (py ''AUTO MAIN: -3.2 mV AUX: 100 Hz LOW BAT'') \<and>
   log_target
     \<lparr>ui_calls = [], serial = Received (py ''AUTO MAIN: -3.2 mV AUX: 100 Hz LOW BAT\<newline>''),
      clock = py ''2026-01-01 00:00:00'', open_error = None\<rparr>
     (set_logging True (Some (py ''/tmp/log.csv'')) (init empty_disk)) =
     Some (py ''/tmp/log.csv'') \<and>
   csv_file (set_logging True (Some (py ''/tmp/log.csv'')) (init empty_disk)) = None \<and>
   files (iteration plain_runtime
            \<lparr>ui_calls = [],
             serial = Received (py ''AUTO MAIN: -3.2 mV AUX: 100 Hz LOW BAT\<newline>''),
             clock = py ''2026-01-01 00:00:00'', open_error = None\<rparr>
            (set_logging True (Some (py ''/tmp/log.csv'')) (init empty_disk)))
         (py ''/tmp/log.csv'') =
     py ''2026-01-01 00:00:00,\"AUTO\",-3.2,\"mV\",100.0,\"Hz\",LOW BAT\<newline>''"
  using csv_row_appended
    [of "set_logging True (Some (py ''/tmp/log.csv'')) (init empty_disk)"
        "\<lparr>ui_calls = [],
          serial = Received (py ''AUTO MAIN: -3.2 mV AUX: 100 Hz LOW BAT\<newline>''),
          clock = py ''2026-01-01 00:00:00'', open_error = None\<rparr>"
        "py ''AUTO MAIN: -3.2 mV AUX: 100 Hz LOW BAT\<newline>''"
        plain_runtime "py ''/tmp/log.csv''"]
  by (simp add: loop_defs eval_defs log_target_def csv_row_def quoted_def)

lemma iteration_body:
  "iteration U ob st =
     (fst (body U ob st))
       \<lparr>diag_sink := diag_sink (fst (body U ob st)) @
                      (case snd (body U ob st) of None \<Rightarrow> [] | Some e \<Rightarrow> [e])\<rparr>"
  by (cases "body U ob st") (auto simp: iteration_def split: option.splits)

lemma body_cases:
  "body U ob st = (st, None) \<or> (\<exists>e. body U ob st = (st, Some e)) \<or>
   (\<exists>line p. body U ob st = csv_part U ob (before_csv U line p st))"
proof (cases "serial ob")
  case (Received t)
  obtain p where "parse_all_measurements U (py_strip U t) = Inr p"
    using parse_total by blast
  with Received show ?thesis
    by (cases "py_strip U t = []") (auto simp: body_def Let_def process_line_parsed)
qed (simp_all add: body_def)

lemma open_if_needed_frame:
  "stop_event (open_if_needed ob st) = stop_event st"
  "logging_enabled (open_if_needed ob st) = logging_enabled st"
  "csv_path (open_if_needed ob st) = csv_path st"
  "files (open_if_needed ob st) = files st"
  "row_vars (open_if_needed ob st) = row_vars st"
  by (simp_all add: open_if_needed_def file_open_def log_callback_def split: option.splits)

lemma file_write_frame:
  assumes "file_write h t st = Inr st'"
  shows "stop_event st' = stop_event st" "csv_file st' = csv_file st"
        "logging_enabled st' = logging_enabled st" "csv_path st' = csv_path st"
        "length (handles st') = length (handles st)"
        "h_open (handles st' ! i) = h_open (handles st ! i)"
        "h_path (handles st' ! i) = h_path (handles st ! i)"
        "files st' = files st"
  using assms
  by (auto simp: file_write_def is_open_def nth_list_update split: if_splits)

lemma file_flush_frame:
  assumes "file_flush h st = Inr st'"
  shows "stop_event st' = stop_event st" "csv_file st' = csv_file st"
        "logging_enabled st' = logging_enabled st" "csv_path st' = csv_path st"
        "length (handles st') = length (handles st)"
        "h_open (handles st' ! i) = h_open (handles st ! i)"
        "h_path (handles st' ! i) = h_path (handles st ! i)"
  using assms
  by (auto simp: file_flush_def flushed_def is_open_def nth_list_update split: if_splits)

lemma write_row_frame:
  "stop_event (fst (write_row U ob st)) = stop_event st"
  "csv_file (fst (write_row U ob st)) = csv_file st"
  "logging_enabled (fst (write_row U ob st)) = logging_enabled st"
  "csv_path (fst (write_row U ob st)) = csv_path st"
  "length (handles (fst (write_row U ob st))) = length (handles st)"
  "h_open (handles (fst (write_row U ob st)) ! i) = h_open (handles st ! i)"
  "h_path (handles (fst (write_row U ob st)) ! i) = h_path (handles st ! i)"
  by (auto simp: write_row_def Let_def file_write_frame file_flush_frame
        split: option.splits sum.splits)

lemma handles_ok_cong:
  assumes "csv_file st' = csv_file st" "length (handles st') = length (handles st)"
      and "\<And>i. h_open (handles st' ! i) = h_open (handles st ! i)"
  shows "handles_ok st' = handles_ok st"
  using assms by (simp add: handles_ok_def)

lemma handles_ok_open_if_needed: "handles_ok st \<Longrightarrow> handles_ok (open_if_needed ob st)"
  by (auto simp: open_if_needed_def handles_ok_def file_open_def log_callback_def nth_append
        split: option.splits)

lemma handles_ok_csv_part: "handles_ok st \<Longrightarrow> handles_ok (fst (csv_part U ob st))"
  by (simp add: csv_part_def handles_ok_open_if_needed
        handles_ok_cong [OF write_row_frame(2,5,6)])

lemma csv_part_stop: "stop_event (fst (csv_part U ob st)) = stop_event st"
  by (simp add: csv_part_def write_row_frame open_if_needed_frame)

lemma handles_ok_before_csv: "handles_ok (before_csv U line p st) = handles_ok st"
  by (simp add: handles_ok_def before_csv_frame)

lemma handles_ok_iteration: "handles_ok st \<Longrightarrow> handles_ok (iteration U ob st)"
proof -
  assume ok: "handles_ok st"
  from body_cases [of U ob st] have "handles_ok (fst (body U ob st))"
    using ok by (auto simp: handles_ok_csv_part handles_ok_before_csv)
  then show ?thesis by (simp add: iteration_body handles_ok_def)
qed

lemma iteration_stop: "stop_event (iteration U ob st) = stop_event st"
proof -
  from body_cases [of U ob st] have "stop_event (fst (body U ob st)) = stop_event st"
    by (auto simp: csv_part_stop before_csv_frame)
  then show ?thesis by (simp add: iteration_body)
qed

lemma file_close_frame:
  "stop_event (file_close h st) = stop_event st"
  "csv_file (file_close h st) = csv_file st"
  "logging_enabled (file_close h st) = logging_enabled st"
  "csv_path (file_close h st) = csv_path st"
  "length (handles (file_close h st)) = length (handles st)"
  by (simp_all add: file_close_def flushed_def)

lemma file_close_open:
  "i < length (handles st) \<Longrightarrow>
   h_open (handles (file_close h st) ! i) = (h_open (handles st ! i) \<and> i \<noteq> h)"
  by (auto simp: file_close_def flushed_def is_open_def nth_list_update)

lemma all_closed_after_close:
  assumes "handles_ok st" "csv_file st = Some h"
      and "i < length (handles (file_close h st))"
  shows "\<not> h_open (handles (file_close h st) ! i)"
  using assms by (auto simp: file_close_frame file_close_open handles_ok_def)

lemma apply_ui_stop: "stop_event (apply_ui c st) = (stop_event st \<or> c = Stop)"
  by (cases c)
     (auto simp: stop_def set_logging_def Let_def file_close_frame split: option.splits)

lemma fold_apply_ui_stop:
  "stop_event (fold apply_ui cs st) = (stop_event st \<or> Stop \<in> set cs)"
  by (induction cs arbitrary: st) (auto simp: apply_ui_stop)

lemma handles_ok_set_logging: "handles_ok st \<Longrightarrow> handles_ok (set_logging enabled path st)"
proof (cases "enabled \<or> csv_file st = None")
  case True
  assume "handles_ok st"
  with True show ?thesis
    by (auto simp: set_logging_def Let_def handles_ok_def)
next
  case False
  assume ok: "handles_ok st"
  from False obtain h where h: "csv_file st = Some h" "\<not> enabled" by auto
  let ?st = "st\<lparr>logging_enabled := False\<rparr>"
  from ok h have ok': "handles_ok ?st" "csv_file ?st = Some h"
    by (simp_all add: handles_ok_def)
  from h have "set_logging enabled path st = (file_close h ?st)\<lparr>csv_file := None\<rparr>"
    by (simp add: set_logging_def Let_def)
  moreover have "\<And>i. i < length (handles (file_close h ?st)) \<Longrightarrow>
       \<not> h_open (handles (file_close h ?st) ! i)"
    using all_closed_after_close [OF ok'] by simp
  ultimately show ?thesis by (simp add: handles_ok_def)
qed

lemma handles_ok_apply_ui: "handles_ok st \<Longrightarrow> handles_ok (apply_ui c st)"
proof (cases c)
  case Stop
  assume "handles_ok st"
  with Stop show ?thesis by (simp add: stop_def handles_ok_def)
next
  case (Set_logging enabled path)
  assume "handles_ok st"
  with Set_logging show ?thesis by (simp add: handles_ok_set_logging)
qed

lemma handles_ok_fold: "handles_ok st \<Longrightarrow> handles_ok (fold apply_ui cs st)"
  by (induction cs arbitrary: st) (auto simp: handles_ok_apply_ui)

lemma all_closed_finish:
  assumes "handles_ok st" "i < length (handles (finish st))"
  shows "\<not> h_open (handles (finish st) ! i)"
proof (cases "csv_file st")
  case None
  with assms show ?thesis by (auto simp: finish_def handles_ok_def)
next
  case (Some h)
  with assms all_closed_after_close [OF assms(1) Some, of i] show ?thesis
    by (simp add: finish_def)
qed

lemma run_step:
  "run U (ob # obs) st =
     (if stop_event (fold apply_ui (ui_calls ob) st)
      then Exited (finish (fold apply_ui (ui_calls ob) st))
      else run U obs (iteration U ob (fold apply_ui (ui_calls ob) st)))"
  by (simp add: Let_def)

declare run.simps(2) [simp del]

lemma run_exits_iff:
  "\<not> stop_event st \<Longrightarrow>
   (\<exists>st'. run U obs st = Exited st') = (\<exists>ob \<in> set obs. Stop \<in> set (ui_calls ob))"
proof (induction obs arbitrary: st)
  case Nil
  then show ?case by simp
next
  case (Cons ob obs)
  show ?case
  proof (cases "Stop \<in> set (ui_calls ob)")
    case True
    then show ?thesis by (auto simp: run_step fold_apply_ui_stop)
  next
    case False
    with Cons.prems have ns: "\<not> stop_event (iteration U ob (fold apply_ui (ui_calls ob) st))"
      by (simp add: iteration_stop fold_apply_ui_stop)
    from False Cons.prems have
      "run U (ob # obs) st = run U obs (iteration U ob (fold apply_ui (ui_calls ob) st))"
      by (simp add: run_step fold_apply_ui_stop)
    with Cons.IH [OF ns] False show ?thesis by simp
  qed
qed

lemma run_exit_closed:
  "handles_ok st \<Longrightarrow> run U obs st = Exited st' \<Longrightarrow> i < length (handles st') \<Longrightarrow>
   \<not> h_open (handles st' ! i)"
proof (induction obs arbitrary: st)
  case Nil
  then show ?case by simp
next
  case (Cons ob obs)
  let ?st1 = "fold apply_ui (ui_calls ob) st"
  have ok1: "handles_ok ?st1" using Cons.prems(1) by (rule handles_ok_fold)
  show ?case
  proof (cases "stop_event ?st1")
    case True
    with Cons.prems(2) have "st' = finish ?st1" by (simp add: run_step)
    with all_closed_finish [OF ok1] Cons.prems(3) show ?thesis by simp
  next
    case False
    with Cons.prems(2) have "run U obs (iteration U ob ?st1) = Exited st'"
      by (simp add: run_step)
    with Cons.IH [OF handles_ok_iteration [OF ok1]] Cons.prems(3) show ?thesis by blast
  qed
qed

lemma run_exit_final:
  "run U obs st = Exited st' \<Longrightarrow> run U (obs @ later) st = Exited st'"
proof (induction obs arbitrary: st)
  case Nil
  then show ?case by simp
next
  case (Cons ob obs)
  then show ?case
    by (cases "stop_event (fold apply_ui (ui_calls ob) st)") (simp_all add: run_step)
qed

text \<open>
  Claim C5. For a reader whose stop event is not set and that holds every file it has
  open: the loop is left exactly when \<^verbatim>\<open>stop\<close> has been called, so that without such a call
  the thread is still running after any observations, whatever was raised in the
  iterations; and when the loop has been left, every file object of the reader is closed
  and whatever is observed afterwards changes nothing: the final state, the contents of
  the files in it, is the same.
\<close>

theorem loop_ends_only_on_stop:
  assumes "\<not> stop_event st" and "handles_ok st"
  shows "((\<exists>st'. run U obs st = Exited st') = (\<exists>ob \<in> set obs. Stop \<in> set (ui_calls ob))) \<and>
         ((\<forall>ob \<in> set obs. Stop \<notin> set (ui_calls ob)) \<longrightarrow> (\<exists>st'. run U obs st = Running st')) \<and>
         (\<forall>st'. run U obs st = Exited st' \<longrightarrow>
            (\<forall>i < length (handles st'). \<not> h_open (handles st' ! i)) \<and>
            (\<forall>later. run U (obs @ later) st = Exited st'))"
proof (intro conjI allI impI)
  show iff: "(\<exists>st'. run U obs st = Exited st') = (\<exists>ob \<in> set obs. Stop \<in> set (ui_calls ob))"
    using assms(1) by (rule run_exits_iff)
  show "\<exists>st'. run U obs st = Running st'" if "\<forall>ob \<in> set obs. Stop \<notin> set (ui_calls ob)"
  proof (cases "run U obs st")
    case (Running st')
    then show ?thesis by blast
  next
    case (Exited st')
    with iff that show ?thesis by blast
  qed
  show "\<not> h_open (handles st' ! i)"
    if "run U obs st = Exited st'" "i < length (handles st')" for st' i
    using assms(2) that by (rule run_exit_closed)
  show "run U (obs @ later) st = Exited st'" if "run U obs st = Exited st'" for st' later
    using that by (rule run_exit_final)
qed

lemmas run_defs = run_step finish_def handles_ok_def

theorem loop_ends_only_on_stop_witness:
  "\<not> stop_event (set_logging True (Some (py ''/tmp/log.csv'')) (init empty_disk)) \<and>
   handles_ok (set_logging True (Some (py ''/tmp/log.csv'')) (init empty_disk)) \<and>
   (\<exists>ob \<in> set [\<lparr>ui_calls = [], serial = In_waiting_raises (py ''port gone''),
                  clock = py ''2026-01-01 00:00:00'', open_error = None\<rparr>,
                 \<lparr>ui_calls = [], serial = Received (py ''MAIN: 12.5 V DC''),
                  clock = py ''2026-01-01 00:00:01'', open_error = None\<rparr>,
                 \<lparr>ui_calls = [Stop], serial = Received (py ''MAIN: 1 V''),
                  clock = py ''2026-01-01 00:00:02'', open_error = None\<rparr>].
       Stop \<in> set (ui_calls ob)) \<and>
   (\<exists>st'. run plain_runtime
            [\<lparr>ui_calls = [], serial = In_waiting_raises (py ''port gone''),
              clock = py ''2026-01-01 00:00:00'', open_error = None\<rparr>,
             \<lparr>ui_calls = [], serial = Received (py ''MAIN: 12.5 V DC''),
              clock = py ''2026-01-01 00:00:01'', open_error = None\<rparr>,
             \<lparr>ui_calls = [Stop], serial = Received (py ''MAIN: 1 V''),
              clock = py ''2026-01-01 00:00:02'', open_error = None\<rparr>]
            (set_logging True (Some (py ''/tmp/log.csv'')) (init empty_disk)) = Exited st' \<and>
          diag_sink st' = [SerialException (py ''port gone'')] \<and>
          map h_open (handles st') = [False] \<and>
          files st' (py ''/tmp/log.csv'') = py ''2026-01-01 00:00:01,\"\",12.5,\"V\",,\"\",OK\<newline>'')"
  using loop_ends_only_on_stop
    [of "set_logging True (Some (py ''/tmp/log.csv'')) (init empty_disk)" plain_runtime
        "[\<lparr>ui_calls = [], serial = In_waiting_raises (py ''port gone''),
              clock = py ''2026-01-01 00:00:00'', open_error = None\<rparr>,
             \<lparr>ui_calls = [], serial = Received (py ''MAIN: 12.5 V DC''),
              clock = py ''2026-01-01 00:00:01'', open_error = None\<rparr>,
             \<lparr>ui_calls = [Stop], serial = Received (py ''MAIN: 1 V''),
              clock = py ''2026-01-01 00:00:02'', open_error = None\<rparr>]"]
  by (simp add: run_defs loop_defs eval_defs)




lemma open_if_needed_attached: "csv_file st = Some h \<Longrightarrow> open_if_needed ob st = st"
  by (simp add: open_if_needed_def split: option.splits)

lemma write_row_files:
  assumes "csv_file st = Some h" "q \<noteq> h_path (handles st ! h)"
  shows "files (fst (write_row U ob st)) q = files st q"
  using assms
  by (auto simp: write_row_def Let_def file_write_def file_flush_def flushed_def is_open_def
        split: option.splits)

lemma csv_part_attached:
  assumes "csv_file st = Some h"
  shows "csv_file (fst (csv_part U ob st)) = Some h"
        "logging_enabled (fst (csv_part U ob st)) = logging_enabled st"
        "csv_path (fst (csv_part U ob st)) = csv_path st"
        "length (handles (fst (csv_part U ob st))) = length (handles st)"
        "h_open (handles (fst (csv_part U ob st)) ! i) = h_open (handles st ! i)"
        "h_path (handles (fst (csv_part U ob st)) ! i) = h_path (handles st ! i)"
        "q \<noteq> h_path (handles st ! h) \<Longrightarrow> files (fst (csv_part U ob st)) q = files st q"
  using assms
  by (simp_all add: csv_part_def open_if_needed_attached write_row_frame write_row_files)

lemma iteration_attached:
  assumes "csv_file st = Some h"
  shows "csv_file (iteration U ob st) = Some h"
        "logging_enabled (iteration U ob st) = logging_enabled st"
        "csv_path (iteration U ob st) = csv_path st"
        "length (handles (iteration U ob st)) = length (handles st)"
        "h_open (handles (iteration U ob st) ! i) = h_open (handles st ! i)"
        "h_path (handles (iteration U ob st) ! i) = h_path (handles st ! i)"
        "q \<noteq> h_path (handles st ! h) \<Longrightarrow> files (iteration U ob st) q = files st q"
proof -
  have a: "csv_file (before_csv U line p st) = Some h" for line p
    using assms by (simp add: before_csv_frame)
  note fr = csv_part_attached [OF a] before_csv_frame
  from body_cases [of U ob st] assms
  show "csv_file (iteration U ob st) = Some h"
    by (auto simp: iteration_body fr)
  from body_cases [of U ob st]
  show "logging_enabled (iteration U ob st) = logging_enabled st"
    by (auto simp: iteration_body fr)
  from body_cases [of U ob st]
  show "csv_path (iteration U ob st) = csv_path st"
    by (auto simp: iteration_body fr)
  from body_cases [of U ob st]
  show "length (handles (iteration U ob st)) = length (handles st)"
    by (auto simp: iteration_body fr)
  from body_cases [of U ob st]
  show "h_open (handles (iteration U ob st) ! i) = h_open (handles st ! i)"
    by (auto simp: iteration_body fr)
  from body_cases [of U ob st]
  show "h_path (handles (iteration U ob st) ! i) = h_path (handles st ! i)"
    by (auto simp: iteration_body fr)
  from body_cases [of U ob st]
  show "files (iteration U ob st) q = files st q" if "q \<noteq> h_path (handles st ! h)"
    using that by (auto simp: iteration_body fr)
qed

lemma run_attached:
  assumes "list_all (\<lambda>ob. ui_calls ob = []) obs" "\<not> stop_event st" "csv_file st = Some h"
  shows "\<exists>st'. run U obs st = Running st' \<and> csv_file st' = Some h \<and>
           logging_enabled st' = logging_enabled st \<and> csv_path st' = csv_path st \<and>
           is_open h st' = is_open h st \<and>
           h_path (handles st' ! h) = h_path (handles st ! h) \<and>
           (\<forall>q. q \<noteq> h_path (handles st ! h) \<longrightarrow> files st' q = files st q)"
  using assms
proof (induction obs arbitrary: st)
  case Nil
  then show ?case by simp
next
  case (Cons ob obs)
  let ?st1 = "iteration U ob st"
  from Cons.prems have step: "run U (ob # obs) st = run U obs ?st1"
    by (simp add: run_step)
  note fr = iteration_attached [OF Cons.prems(3), where U = U and ob = ob]
  have "list_all (\<lambda>ob. ui_calls ob = []) obs" "\<not> stop_event ?st1" "csv_file ?st1 = Some h"
    using Cons.prems fr(1) by (simp_all add: iteration_stop)
  from Cons.IH [OF this] obtain st' where
    "run U obs ?st1 = Running st'" "csv_file st' = Some h"
    "logging_enabled st' = logging_enabled ?st1" "csv_path st' = csv_path ?st1"
    "is_open h st' = is_open h ?st1" "h_path (handles st' ! h) = h_path (handles ?st1 ! h)"
    "\<forall>q. q \<noteq> h_path (handles ?st1 ! h) \<longrightarrow> files st' q = files ?st1 q"
    by blast
  with step fr show ?case by (simp add: is_open_def)
qed

lemma set_logging_on:
  "logging_enabled st \<Longrightarrow> set_logging True new_path st = st\<lparr>csv_path := new_path\<rparr>"
  by (cases st) (simp add: set_logging_def)

lemma set_logging_off:
  assumes "csv_file st = Some h"
  shows "csv_file (set_logging False path st) = None"
        "\<not> is_open h (set_logging False path st)"
        "\<not> logging_enabled (set_logging False path st)"
  using assms
  by (auto simp: set_logging_def Let_def file_close_def flushed_def is_open_def)

text \<open>
  Claim C10. When logging is enabled and the reader holds an open file object,
  \<^verbatim>\<open>set_logging(True, new_path)\<close> changes the stored path and nothing else. Through any
  iterations that follow without a call from the other thread, the reader keeps the same
  open file object on the same file, and no file but that one changes; toggling logging
  off then closes the file object and detaches it. And the next structured line appends
  its row to the file opened before, not to the file at the new path.
\<close>

theorem set_logging_keeps_open_handle:
  assumes "logging_enabled st" and "csv_file st = Some h" and "is_open h st"
      and "\<not> stop_event st" and "list_all (\<lambda>ob. ui_calls ob = []) obs"
  shows "set_logging True new_path st = st\<lparr>csv_path := new_path\<rparr> \<and>
         (\<exists>st'. run U obs (set_logging True new_path st) = Running st' \<and>
            csv_path st' = new_path \<and>
            csv_file st' = Some h \<and> is_open h st' \<and>
            h_path (handles st' ! h) = h_path (handles st ! h) \<and>
            (\<forall>q. q \<noteq> h_path (handles st ! h) \<longrightarrow> files st' q = files st q) \<and>
            csv_file (set_logging False None st') = None \<and>
            \<not> is_open h (set_logging False None st')) \<and>
         (\<forall>ob t. serial ob = Received t \<and> py_strip U t \<noteq> [] \<and>
                 py_in (py ''MAIN:'') (py_strip U t) \<and> h_buffer (handles st ! h) = [] \<longrightarrow>
            (\<exists>p. parse_all_measurements U (py_strip U t) = Inr p \<and>
                 files (iteration U ob (set_logging True new_path st)) =
                   (files st)(h_path (handles st ! h) :=
                      files st (h_path (handles st ! h)) @ csv_row U (clock ob) p)))"
proof -
  have on: "set_logging True new_path st = st\<lparr>csv_path := new_path\<rparr>"
    using assms(1) by (rule set_logging_on)
  have row: "\<exists>p. parse_all_measurements U (py_strip U t) = Inr p \<and>
                 files (iteration U ob (set_logging True new_path st)) =
                   (files st)(h_path (handles st ! h) :=
                      files st (h_path (handles st ! h)) @ csv_row U (clock ob) p)"
    if "serial ob = Received t" "py_strip U t \<noteq> []" "py_in (py ''MAIN:'') (py_strip U t)"
       "h_buffer (handles st ! h) = []" for ob t
  proof -
    let ?st0 = "st\<lparr>csv_path := new_path\<rparr>"
    have "logging_enabled ?st0" "log_target ob ?st0 = Some (h_path (handles st ! h))"
         "\<And>h'. csv_file ?st0 = Some h' \<Longrightarrow> h_buffer (handles ?st0 ! h') = []"
      using assms(1,2,3) that(4) by (simp_all add: log_target_def is_open_def)
    from iteration_appends_row [OF this(1) that(1,2,3) this(2,3)] on show ?thesis
      by auto
  qed
  let ?st0 = "st\<lparr>csv_path := new_path\<rparr>"
  have "\<not> stop_event ?st0" "csv_file ?st0 = Some h"
    using assms by simp_all
  from run_attached [OF assms(5) this, of U] obtain st' where
    r: "run U obs ?st0 = Running st'" "csv_file st' = Some h"
       "csv_path st' = csv_path ?st0" "is_open h st' = is_open h ?st0"
       "h_path (handles st' ! h) = h_path (handles ?st0 ! h)"
       "\<forall>q. q \<noteq> h_path (handles ?st0 ! h) \<longrightarrow> files st' q = files ?st0 q"
    by blast
  from set_logging_off [OF r(2), of None] r assms(3) on row show ?thesis
    by (simp add: is_open_def)
qed

theorem set_logging_keeps_open_handle_witness:
  "(let old = py ''/tmp/old.csv''; new = py ''/tmp/new.csv'';
        st = iteration plain_runtime
               \<lparr>ui_calls = [], serial = Received (py ''MAIN: 12.5 V DC''),
                clock = py ''2026-01-01 00:00:00'', open_error = None\<rparr>
               (set_logging True (Some old) (init empty_disk));
        obs = [\<lparr>ui_calls = [], serial = Received (py ''MAIN: 1 V''),
                clock = py ''2026-01-01 00:00:01'', open_error = None\<rparr>]
    in logging_enabled st \<and> csv_file st = Some 0 \<and> is_open 0 st \<and> \<not> stop_event st \<and>
       list_all (\<lambda>ob. ui_calls ob = []) obs \<and>
       h_path (handles st ! 0) = old \<and>
       (\<exists>st'. run plain_runtime obs (set_logging True (Some new) st) = Running st' \<and>
          csv_path st' = Some new \<and> csv_file st' = Some 0 \<and>
          files st' old = py ''2026-01-01 00:00:00,\"\",12.5,\"V\",,\"\",OK\<newline>'' @
                          py ''2026-01-01 00:00:01,\"\",1.0,\"V\",,\"\",OK\<newline>'' \<and>
          files st' new = []))"
  using set_logging_keeps_open_handle
    [of "iteration plain_runtime
               \<lparr>ui_calls = [], serial = Received (py ''MAIN: 12.5 V DC''),
                clock = py ''2026-01-01 00:00:00'', open_error = None\<rparr>
               (set_logging True (Some (py ''/tmp/old.csv'')) (init empty_disk))"
        0
        "[\<lparr>ui_calls = [], serial = Received (py ''MAIN: 1 V''),
                clock = py ''2026-01-01 00:00:01'', open_error = None\<rparr>]"
        "Some (py ''/tmp/new.csv'')" plain_runtime]
  by (simp add: run_defs loop_defs eval_defs)

end
